theory Spec2Isabelle
  imports Complex_Main "HOL-Library.Word"
begin

section \<open>Common conventions\<close>

text \<open>
  The notebooks define a handful of independent numeric kernels. Each kernel is embedded
  as a HOL function that follows the source line by line. A raised exception is a value
  \<open>Inl e\<close> of the result type.
\<close>

datatype error =
    ZeroDivisionError
  | IndexError
  | ValueError
  | Exception
  | OverflowError
  | OutOfBounds
  | UninitialisedRead

text \<open>A Python object returned by \<open>__getitem__\<close>: \<open>None\<close> or an integer.\<close>

datatype py_value = PyNone | PyInt int

text \<open>\<open>range(n)\<close> of Python: the indices \<open>0, ..., n - 1\<close>, none when \<open>n \<le> 0\<close>.\<close>

definition range_py :: "int \<Rightarrow> nat list" where
  "range_py n = [0..<nat n]"


section \<open>Floating-point arithmetic\<close>

text \<open>
  The kernels compute in IEEE doubles, which round, overflow to infinities and have NaN.
  The arithmetic is therefore a parameter of every kernel: a type \<open>'a\<close> of values and
  the operations the source applies to them. A theorem stated for an arbitrary \<open>fp\<close>
  holds for the doubles of the machine as for any other arithmetic; nothing is assumed
  of the operations, so a comparison with NaN may be false both ways.
  Each operator of the source is one operation of \<open>fp\<close>, applied to its operands
  in the order the source gives: the kernels are taken as compiled without fusing
  a product and a sum into one rounding.
  \<open>fp_pow2\<close> is \<open>** 2\<close>, \<open>fp_abs\<close> is \<open>np.abs\<close>, \<open>fp_of_int\<close> converts an integer
  that is in the range of a double, and \<open>fp_zero\<close>, \<open>fp_one\<close>, \<open>fp_two\<close>, \<open>fp_four\<close>
  are the literals \<open>0.0\<close>, \<open>1.0\<close>, \<open>2.0\<close>, \<open>4.0\<close>.
\<close>

record 'a fp_ops =
  fp_zero :: 'a
  fp_one :: 'a
  fp_two :: 'a
  fp_four :: 'a
  fp_add :: "'a \<Rightarrow> 'a \<Rightarrow> 'a"
  fp_sub :: "'a \<Rightarrow> 'a \<Rightarrow> 'a"
  fp_mul :: "'a \<Rightarrow> 'a \<Rightarrow> 'a"
  fp_div :: "'a \<Rightarrow> 'a \<Rightarrow> 'a"
  fp_pow2 :: "'a \<Rightarrow> 'a"
  fp_abs :: "'a \<Rightarrow> 'a"
  fp_less :: "'a \<Rightarrow> 'a \<Rightarrow> bool"
  fp_le :: "'a \<Rightarrow> 'a \<Rightarrow> bool"
  fp_of_int :: "int \<Rightarrow> 'a"

text \<open>The exact arithmetic of the real numbers, for the claims that speak of it.\<close>

definition exact :: "real fp_ops" where
  "exact =
     \<lparr>fp_zero = 0, fp_one = 1, fp_two = 2, fp_four = 4,
      fp_add = (+), fp_sub = (-), fp_mul = (*), fp_div = (/),
      fp_pow2 = (\<lambda>a. a ^ 2), fp_abs = abs, fp_less = (<), fp_le = (\<le>),
      fp_of_int = real_of_int\<rparr>"

text \<open>
  Python converts an integer operand of a float operation to a double and raises
  \<open>OverflowError\<close> when the integer rounds to a magnitude beyond the largest double,
  that is from \<open>2\<^sup>1\<^sup>0\<^sup>2\<^sup>4 - 2\<^sup>9\<^sup>7\<^sup>0\<close> on.
\<close>

definition float_limit :: int where
  "float_limit = 2 ^ 1024 - 2 ^ 970"

definition py_float :: "'a fp_ops \<Rightarrow> int \<Rightarrow> error + 'a" where
  "py_float fp k = (if \<bar>k\<bar> < float_limit then Inr (fp_of_int fp k) else Inl OverflowError)"

section \<open>Two-dimensional arrays\<close>

text \<open>
  A NumPy array or typed memoryview of rank 2: its shape and its elements, row by row.
  \<open>wf_ndarray\<close> is the invariant every array of the source satisfies: there are
  \<open>shape0\<close> rows of \<open>shape1\<close> elements each.
\<close>

record 'a ndarray =
  shape0 :: nat
  shape1 :: nat
  rows :: "'a list list"

definition wf_ndarray :: "'a ndarray \<Rightarrow> bool" where
  "wf_ndarray a \<longleftrightarrow>
     length (rows a) = shape0 a \<and> list_all (\<lambda>r. length r = shape1 a) (rows a)"

text \<open>
  Element access of interpreted Python: an index outside the array raises
  \<open>IndexError\<close>. All indices of the kernels come from \<open>range\<close>, so none is negative.
\<close>

definition get_checked :: "'a ndarray \<Rightarrow> nat \<Rightarrow> nat \<Rightarrow> error + 'a" where
  "get_checked a i j =
     (if i < shape0 a \<and> j < shape1 a then Inr (rows a ! i ! j) else Inl IndexError)"

definition set_checked :: "'a ndarray \<Rightarrow> nat \<Rightarrow> nat \<Rightarrow> 'a \<Rightarrow> error + 'a ndarray" where
  "set_checked a i j v =
     (if i < shape0 a \<and> j < shape1 a
      then Inr (a\<lparr>rows := (rows a)[i := (rows a ! i)[j := v]]\<rparr>)
      else Inl IndexError)"

text \<open>
  Element access of compiled code without index checks (Numba's nopython mode, Cython
  under \<open>boundscheck(False)\<close>): an index outside the array touches memory that does not
  belong to it and the kernel goes on with whatever it finds there. The behaviour is
  undefined; \<open>OutOfBounds\<close> marks such a path, and every theorem about the values
  a kernel computes excludes it by a hypothesis on the shapes.
\<close>

definition get_unchecked :: "'a ndarray \<Rightarrow> nat \<Rightarrow> nat \<Rightarrow> error + 'a" where
  "get_unchecked a i j =
     (if i < shape0 a \<and> j < shape1 a then Inr (rows a ! i ! j) else Inl OutOfBounds)"

definition set_unchecked :: "'a ndarray \<Rightarrow> nat \<Rightarrow> nat \<Rightarrow> 'a \<Rightarrow> error + 'a ndarray" where
  "set_unchecked a i j v =
     (if i < shape0 a \<and> j < shape1 a
      then Inr (a\<lparr>rows := (rows a)[i := (rows a ! i)[j := v]]\<rparr>)
      else Inl OutOfBounds)"

text \<open>
  \<open>np.zeros((n, m))\<close>, and \<open>np.empty((n, m))\<close>, whose elements are whatever the
  allocator left there: the parameter \<open>junk\<close> gives that content.
\<close>

definition np_zeros :: "'a fp_ops \<Rightarrow> nat \<Rightarrow> nat \<Rightarrow> 'a ndarray" where
  "np_zeros fp n m =
     \<lparr>shape0 = n, shape1 = m, rows = replicate n (replicate m (fp_zero fp))\<rparr>"

definition np_empty :: "nat \<Rightarrow> nat \<Rightarrow> (nat \<Rightarrow> nat \<Rightarrow> 'a) \<Rightarrow> 'a ndarray" where
  "np_empty n m junk =
     \<lparr>shape0 = n, shape1 = m, rows = map (\<lambda>i. map (junk i) [0..<m]) [0..<n]\<rparr>"

text \<open>
  A C \<open>int\<close> that receives an extent (a \<open>Py_ssize_t\<close>) keeps its low 32 bits, read as
  a signed number.
\<close>

definition c_int_of_extent :: "nat \<Rightarrow> int" where
  "c_int_of_extent n = sint (word_of_nat n :: 32 word)"

section \<open>Monte Carlo estimate of pi (Cython1, pure Python cell)\<close>

text \<open>
  \<^verbatim>\<open>
  def pi_mc(n=1000):
      in_circle = 0
      for i in range(n):
          x, y = random(), random()
          if x ** 2 + y ** 2 <= 1.0:
              in_circle += 1
      return 4.0 * in_circle / n
  \<close>
  The generator behind \<open>random()\<close> is global state. It is modelled as the sequence
  \<open>draws\<close> of the doubles it is going to return, together with the position of the
  next one; \<open>random_draw\<close> reads one value and advances the position. \<open>random()\<close>
  returns values in \<open>[0, 1)\<close>, on which \<open>** 2\<close> does not raise.
\<close>

definition random_draw :: "(nat \<Rightarrow> 'a) \<Rightarrow> nat \<Rightarrow> 'a \<times> nat" where
  "random_draw draws pos = (draws pos, Suc pos)"

fun pi_mc_loop :: "'a fp_ops \<Rightarrow> nat list \<Rightarrow> (nat \<Rightarrow> 'a) \<Rightarrow> nat \<Rightarrow> int \<Rightarrow> nat \<times> int" where
  "pi_mc_loop fp [] draws pos in_circle = (pos, in_circle)"
| "pi_mc_loop fp (i # rest) draws pos in_circle =
     (let (x, pos1) = random_draw draws pos;
          (y, pos2) = random_draw draws pos1
      in pi_mc_loop fp rest draws pos2
           (if fp_le fp (fp_add fp (fp_pow2 fp x) (fp_pow2 fp y)) (fp_one fp)
            then in_circle + 1 else in_circle))"

text \<open>
  \<open>4.0 * in_circle / n\<close> converts \<open>in_circle\<close> for the product and then \<open>n\<close> for
  the quotient; the float division converts its operand before it tests it for zero. The
  result pairs the value returned, or the exception raised, with the position of the
  generator after the call.
\<close>

definition pi_mc :: "'a fp_ops \<Rightarrow> int \<Rightarrow> (nat \<Rightarrow> 'a) \<Rightarrow> nat \<Rightarrow> (error + 'a) \<times> nat" where
  "pi_mc fp n draws pos =
     (let (pos', in_circle) = pi_mc_loop fp (range_py n) draws pos 0
      in (case py_float fp in_circle of
            Inl e \<Rightarrow> Inl e
          | Inr c \<Rightarrow>
              (case py_float fp n of
                 Inl e \<Rightarrow> Inl e
               | Inr d \<Rightarrow>
                   if n = 0 then Inl ZeroDivisionError
                   else Inr (fp_div fp (fp_mul fp (fp_four fp) c) d)),
          pos'))"

text \<open>
  The \<open>t\<close>-th pair drawn after position \<open>pos\<close> passes the test
  \<open>x ** 2 + y ** 2 <= 1.0\<close> of the source.
\<close>

definition in_quarter_circle :: "'a fp_ops \<Rightarrow> (nat \<Rightarrow> 'a) \<Rightarrow> nat \<Rightarrow> nat \<Rightarrow> bool" where
  "in_quarter_circle fp draws pos t \<longleftrightarrow>
     fp_le fp (fp_add fp (fp_pow2 fp (draws (pos + 2 * t)))
                         (fp_pow2 fp (draws (pos + 2 * t + 1))))
              (fp_one fp)"

text \<open>A sample sequence: the first pair passes the test, all others fail it.\<close>

definition sample_draws :: "nat \<Rightarrow> real" where
  "sample_draws t = (if t < 2 then 1 / 2 else 1)"

section \<open>CyRangeVector (Cython1, C-like allocation and the STL vector)\<close>

text \<open>
  Both cells declare \<open>int start, int end\<close>, \<open>int i\<close> and a loop counter
  \<open>cdef unsigned int i\<close>. A C \<open>int\<close> and an \<open>unsigned int\<close> are 32-bit words; the
  signed comparisons of the source are \<open>\<le>s\<close> and \<open><s\<close>, and \<open>sint\<close> reads a word as the
  Python integer it converts to. Arguments outside the range of a C \<open>int\<close> are rejected
  by the argument conversion before \<open>__cinit__\<close> runs, so they are not inputs of these
  functions.
\<close>

type_synonym c_int = "32 word"
type_synonym c_uint = "32 word"
type_synonym c_size_t = "64 word"

text \<open>
  \<open>for i in range(start, end)\<close> with a C-typed target becomes the C loop
  \<open>for (i = start; i < end; i++)\<close> in the type of the target: both bounds are converted
  to \<open>unsigned int\<close> and compared unsigned. \<open>unsigned_range\<close> lists the values the counter
  takes.
\<close>

definition unsigned_range :: "c_int \<Rightarrow> c_int \<Rightarrow> c_uint list" where
  "unsigned_range start end = map of_nat [unat start..<unat end]"

subsection \<open>The malloc-backed variant\<close>

text \<open>
  \<^verbatim>\<open>
  cdef class CyRangeVector:
      cdef:
          int *data
          int size

      def __cinit__(self, int start, int end):
          cdef unsigned int i
          if start >= end:
              raise Exception(f'{start} >= {end}')
          self.size = end - start
          self.data = <int*>malloc(self.size * sizeof(int))
          for i in range(start, end):
              self.data[i - start] = i

      def __getitem__(self, int i):
          if i >= self.size or i < 0:
              return -1
          return self.data[i]
  \<close>
  The buffer behind \<open>data\<close> is a list of cells, \<open>None\<close> for a cell that was never
  written. \<open>malloc\<close> receives \<open>size\<close> converted to \<open>size_t\<close> and multiplied by
  \<open>sizeof(int) = 4\<close>; a request above \<open>PTRDIFF_MAX\<close> is refused (a null pointer, here a
  buffer with no cell), any other request is granted, so memory is not bounded. A write or
  read outside the buffer is the error \<open>OutOfBounds\<close>, the read of a cell never written
  the error \<open>UninitialisedRead\<close>.
\<close>

definition malloc_ints :: "c_size_t \<Rightarrow> c_int option list" where
  "malloc_ints nbytes =
     (if unat nbytes < 2 ^ 63 then replicate (unat nbytes div 4) None else [])"

definition store :: "c_int option list \<Rightarrow> nat \<Rightarrow> c_int \<Rightarrow> error + c_int option list" where
  "store cells idx v =
     (if idx < length cells then Inr (cells[idx := Some v]) else Inl OutOfBounds)"

record CyRangeVector_malloc =
  data_m :: "c_int option list"
  size_m :: c_int

text \<open>The index \<open>i - start\<close> is computed in \<open>unsigned int\<close>, as C does for mixed operands.\<close>

fun cinit_malloc_loop ::
  "c_uint list \<Rightarrow> c_int \<Rightarrow> c_int option list \<Rightarrow> error + c_int option list" where
  "cinit_malloc_loop [] start cells = Inr cells"
| "cinit_malloc_loop (i # rest) start cells =
     (case store cells (unat (i - start)) i of
        Inl e \<Rightarrow> Inl e
      | Inr cells' \<Rightarrow> cinit_malloc_loop rest start cells')"

definition cinit_malloc :: "c_int \<Rightarrow> c_int \<Rightarrow> error + CyRangeVector_malloc" where
  "cinit_malloc start end =
     (if end \<le>s start then Inl Exception
      else
        let size = end - start;
            data = malloc_ints (scast size * 4)
        in case cinit_malloc_loop (unsigned_range start end) start data of
             Inl e \<Rightarrow> Inl e
           | Inr data' \<Rightarrow> Inr \<lparr>data_m = data', size_m = size\<rparr>)"

definition getitem_malloc :: "CyRangeVector_malloc \<Rightarrow> c_int \<Rightarrow> error + py_value" where
  "getitem_malloc self i =
     (if size_m self \<le>s i \<or> i <s 0 then Inr (PyInt (- 1))
      else if unat i < length (data_m self) then
        (case data_m self ! unat i of
           None \<Rightarrow> Inl UninitialisedRead
         | Some v \<Rightarrow> Inr (PyInt (sint v)))
      else Inl OutOfBounds)"

subsection \<open>The C++ vector variant\<close>

text \<open>
  \<^verbatim>\<open>
  cdef class CyRangeVector:
      cdef:
          vector[int] data

      def __cinit__(self, int start, int end):
          cdef unsigned int i
          if start >= end:
              raise Exception(f'{start} >= {end}')
          for i in range(start, end):
              self.data.push_back(i)

      def __getitem__(self, int i):
          if i >= self.data.size() or i < 0:
              return None
          return self.data[i]
  \<close>
  \<open>data.size()\<close> is a \<open>size_t\<close>, so the first comparison converts \<open>i\<close> to 64 bits
  unsigned (with sign extension).
\<close>

record CyRangeVector_vector =
  data_v :: "c_int list"

fun cinit_vector_loop :: "c_uint list \<Rightarrow> c_int list \<Rightarrow> c_int list" where
  "cinit_vector_loop [] v = v"
| "cinit_vector_loop (i # rest) v = cinit_vector_loop rest (v @ [i])"

definition cinit_vector :: "c_int \<Rightarrow> c_int \<Rightarrow> error + CyRangeVector_vector" where
  "cinit_vector start end =
     (if end \<le>s start then Inl Exception
      else Inr \<lparr>data_v = cinit_vector_loop (unsigned_range start end) []\<rparr>)"

definition getitem_vector :: "CyRangeVector_vector \<Rightarrow> c_int \<Rightarrow> error + py_value" where
  "getitem_vector self i =
     (if length (data_v self) \<le> unat (scast i :: c_size_t) \<or> i <s 0 then Inr PyNone
      else if unat i < length (data_v self) then Inr (PyInt (sint (data_v self ! unat i)))
      else Inl OutOfBounds)"

section \<open>Distance matrices (Numba notebooks)\<close>

text \<open>
  The three loop kernels share one shape. \<open>numba.prange\<close> in a function compiled without
  \<open>parallel=True\<close> is \<open>range\<close>. Each source loop is a function over the list of its
  indices: \<open>_k\<close> is the reduction over the features, \<open>_j\<close> the loop over the columns
  of the result, \<open>_i\<close> the loop over its rows. \<open>x.shape\<close> gives 64-bit integers, which
  hold every extent.
\<close>

subsection \<open>euclidean_numba1\<close>

text \<open>
  \<^verbatim>\<open>
  @numba.jit(nopython=True)
  def euclidean_numba1(x, y):
      num_samples, num_feat = x.shape
      dist_matrix = np.zeros((num_samples, num_samples))
      for i in range(num_samples):
          for j in range(num_samples):
              r = 0.0
              for k in numba.prange(num_feat):
                  r += (x[i][k] - y[j][k])**2
              dist_matrix[i][j] = r
      return dist_matrix
  \<close>
\<close>

fun euclidean_numba1_k ::
  "'a fp_ops \<Rightarrow> nat list \<Rightarrow> 'a ndarray \<Rightarrow> 'a ndarray \<Rightarrow> nat \<Rightarrow> nat \<Rightarrow> 'a \<Rightarrow> error + 'a" where
  "euclidean_numba1_k fp [] x y i j r = Inr r"
| "euclidean_numba1_k fp (k # ks) x y i j r =
     (case get_unchecked x i k of
        Inl e \<Rightarrow> Inl e
      | Inr a \<Rightarrow>
          (case get_unchecked y j k of
             Inl e \<Rightarrow> Inl e
           | Inr b \<Rightarrow> euclidean_numba1_k fp ks x y i j (fp_add fp r (fp_pow2 fp (fp_sub fp a b)))))"

fun euclidean_numba1_j ::
  "'a fp_ops \<Rightarrow> nat list \<Rightarrow> nat list \<Rightarrow> 'a ndarray \<Rightarrow> 'a ndarray \<Rightarrow> nat \<Rightarrow> 'a ndarray \<Rightarrow>
   error + 'a ndarray" where
  "euclidean_numba1_j fp [] ks x y i dist_matrix = Inr dist_matrix"
| "euclidean_numba1_j fp (j # js) ks x y i dist_matrix =
     (case euclidean_numba1_k fp ks x y i j (fp_zero fp) of
        Inl e \<Rightarrow> Inl e
      | Inr r \<Rightarrow>
          (case set_unchecked dist_matrix i j r of
             Inl e \<Rightarrow> Inl e
           | Inr dist_matrix' \<Rightarrow> euclidean_numba1_j fp js ks x y i dist_matrix'))"

fun euclidean_numba1_i ::
  "'a fp_ops \<Rightarrow> nat list \<Rightarrow> nat list \<Rightarrow> nat list \<Rightarrow> 'a ndarray \<Rightarrow> 'a ndarray \<Rightarrow> 'a ndarray \<Rightarrow>
   error + 'a ndarray" where
  "euclidean_numba1_i fp [] js ks x y dist_matrix = Inr dist_matrix"
| "euclidean_numba1_i fp (i # is) js ks x y dist_matrix =
     (case euclidean_numba1_j fp js ks x y i dist_matrix of
        Inl e \<Rightarrow> Inl e
      | Inr dist_matrix' \<Rightarrow> euclidean_numba1_i fp is js ks x y dist_matrix')"

definition euclidean_numba1 ::
  "'a fp_ops \<Rightarrow> 'a ndarray \<Rightarrow> 'a ndarray \<Rightarrow> error + 'a ndarray" where
  "euclidean_numba1 fp x y =
     (let num_samples = shape0 x;
          num_feat = shape1 x;
          dist_matrix = np_zeros fp num_samples num_samples
      in euclidean_numba1_i fp (range_py (int num_samples)) (range_py (int num_samples))
           (range_py (int num_feat)) x y dist_matrix)"

subsection \<open>cityblock_python\<close>

text \<open>
  \<^verbatim>\<open>
  def cityblock_python(x, y):
      num_samples, num_feat = x.shape
      dist_matrix = np.empty((num_samples, num_samples))
      for i in range(num_samples):
          for j in range(num_samples):
              r = 0.0
              for k in range(num_feat):
                  r += np.abs(x[i][k] - y[j][k])
              dist_matrix[i][j] = r
      return dist_matrix
  \<close>
\<close>

fun cityblock_python_k ::
  "'a fp_ops \<Rightarrow> nat list \<Rightarrow> 'a ndarray \<Rightarrow> 'a ndarray \<Rightarrow> nat \<Rightarrow> nat \<Rightarrow> 'a \<Rightarrow> error + 'a" where
  "cityblock_python_k fp [] x y i j r = Inr r"
| "cityblock_python_k fp (k # ks) x y i j r =
     (case get_checked x i k of
        Inl e \<Rightarrow> Inl e
      | Inr a \<Rightarrow>
          (case get_checked y j k of
             Inl e \<Rightarrow> Inl e
           | Inr b \<Rightarrow> cityblock_python_k fp ks x y i j (fp_add fp r (fp_abs fp (fp_sub fp a b)))))"

fun cityblock_python_j ::
  "'a fp_ops \<Rightarrow> nat list \<Rightarrow> nat list \<Rightarrow> 'a ndarray \<Rightarrow> 'a ndarray \<Rightarrow> nat \<Rightarrow> 'a ndarray \<Rightarrow>
   error + 'a ndarray" where
  "cityblock_python_j fp [] ks x y i dist_matrix = Inr dist_matrix"
| "cityblock_python_j fp (j # js) ks x y i dist_matrix =
     (case cityblock_python_k fp ks x y i j (fp_zero fp) of
        Inl e \<Rightarrow> Inl e
      | Inr r \<Rightarrow>
          (case set_checked dist_matrix i j r of
             Inl e \<Rightarrow> Inl e
           | Inr dist_matrix' \<Rightarrow> cityblock_python_j fp js ks x y i dist_matrix'))"

fun cityblock_python_i ::
  "'a fp_ops \<Rightarrow> nat list \<Rightarrow> nat list \<Rightarrow> nat list \<Rightarrow> 'a ndarray \<Rightarrow> 'a ndarray \<Rightarrow> 'a ndarray \<Rightarrow>
   error + 'a ndarray" where
  "cityblock_python_i fp [] js ks x y dist_matrix = Inr dist_matrix"
| "cityblock_python_i fp (i # is) js ks x y dist_matrix =
     (case cityblock_python_j fp js ks x y i dist_matrix of
        Inl e \<Rightarrow> Inl e
      | Inr dist_matrix' \<Rightarrow> cityblock_python_i fp is js ks x y dist_matrix')"

definition cityblock_python ::
  "'a fp_ops \<Rightarrow> (nat \<Rightarrow> nat \<Rightarrow> 'a) \<Rightarrow> 'a ndarray \<Rightarrow> 'a ndarray \<Rightarrow> error + 'a ndarray" where
  "cityblock_python fp junk x y =
     (let num_samples = shape0 x;
          num_feat = shape1 x;
          dist_matrix = np_empty num_samples num_samples junk
      in cityblock_python_i fp (range_py (int num_samples)) (range_py (int num_samples))
           (range_py (int num_feat)) x y dist_matrix)"

subsection \<open>cityblock_numba1\<close>

text \<open>
  The same text as \<open>cityblock_python\<close> under \<open>@numba.jit(nopython=True)\<close>, with
  \<open>numba.prange\<close> for the innermost \<open>range\<close>.
\<close>

fun cityblock_numba1_k ::
  "'a fp_ops \<Rightarrow> nat list \<Rightarrow> 'a ndarray \<Rightarrow> 'a ndarray \<Rightarrow> nat \<Rightarrow> nat \<Rightarrow> 'a \<Rightarrow> error + 'a" where
  "cityblock_numba1_k fp [] x y i j r = Inr r"
| "cityblock_numba1_k fp (k # ks) x y i j r =
     (case get_unchecked x i k of
        Inl e \<Rightarrow> Inl e
      | Inr a \<Rightarrow>
          (case get_unchecked y j k of
             Inl e \<Rightarrow> Inl e
           | Inr b \<Rightarrow> cityblock_numba1_k fp ks x y i j (fp_add fp r (fp_abs fp (fp_sub fp a b)))))"

fun cityblock_numba1_j ::
  "'a fp_ops \<Rightarrow> nat list \<Rightarrow> nat list \<Rightarrow> 'a ndarray \<Rightarrow> 'a ndarray \<Rightarrow> nat \<Rightarrow> 'a ndarray \<Rightarrow>
   error + 'a ndarray" where
  "cityblock_numba1_j fp [] ks x y i dist_matrix = Inr dist_matrix"
| "cityblock_numba1_j fp (j # js) ks x y i dist_matrix =
     (case cityblock_numba1_k fp ks x y i j (fp_zero fp) of
        Inl e \<Rightarrow> Inl e
      | Inr r \<Rightarrow>
          (case set_unchecked dist_matrix i j r of
             Inl e \<Rightarrow> Inl e
           | Inr dist_matrix' \<Rightarrow> cityblock_numba1_j fp js ks x y i dist_matrix'))"

fun cityblock_numba1_i ::
  "'a fp_ops \<Rightarrow> nat list \<Rightarrow> nat list \<Rightarrow> nat list \<Rightarrow> 'a ndarray \<Rightarrow> 'a ndarray \<Rightarrow> 'a ndarray \<Rightarrow>
   error + 'a ndarray" where
  "cityblock_numba1_i fp [] js ks x y dist_matrix = Inr dist_matrix"
| "cityblock_numba1_i fp (i # is) js ks x y dist_matrix =
     (case cityblock_numba1_j fp js ks x y i dist_matrix of
        Inl e \<Rightarrow> Inl e
      | Inr dist_matrix' \<Rightarrow> cityblock_numba1_i fp is js ks x y dist_matrix')"

definition cityblock_numba1 ::
  "'a fp_ops \<Rightarrow> (nat \<Rightarrow> nat \<Rightarrow> 'a) \<Rightarrow> 'a ndarray \<Rightarrow> 'a ndarray \<Rightarrow> error + 'a ndarray" where
  "cityblock_numba1 fp junk x y =
     (let num_samples = shape0 x;
          num_feat = shape1 x;
          dist_matrix = np_empty num_samples num_samples junk
      in cityblock_numba1_i fp (range_py (int num_samples)) (range_py (int num_samples))
           (range_py (int num_feat)) x y dist_matrix)"

subsection \<open>euclidean_numpy\<close>

text \<open>
  \<^verbatim>\<open>
  def euclidean_numpy(x, y):
      x2 = np.einsum('ij,ij->i', x, x)[:, np.newaxis]
      y2 = np.einsum('ij,ij->i', y, y)[:, np.newaxis].T
      xy = np.dot(x, y.T)
      return np.abs(x2 + y2 - 2. * xy)
  \<close>
  \<open>einsum('ij,ij->i', a, b)\<close> is the vector of the row-wise inner products; the kernel
  calls it on an array and itself. \<open>np.dot\<close> raises \<open>ValueError\<close> when the inner
  extents differ. \<open>x2\<close> is laid out as a column and \<open>y2\<close> as a row, so broadcasting
  adds \<open>x2[i] + y2[j]\<close> at position \<open>(i, j)\<close>.
\<close>

definition einsum_ij_ij_i :: "real ndarray \<Rightarrow> real ndarray \<Rightarrow> real list" where
  "einsum_ij_ij_i a b = map2 (\<lambda>r s. sum_list (map2 (*) r s)) (rows a) (rows b)"

definition transpose_nd :: "real ndarray \<Rightarrow> real ndarray" where
  "transpose_nd a =
     \<lparr>shape0 = shape1 a, shape1 = shape0 a,
      rows = map (\<lambda>j. map (\<lambda>r. r ! j) (rows a)) [0..<shape1 a]\<rparr>"

definition np_dot :: "real ndarray \<Rightarrow> real ndarray \<Rightarrow> error + real ndarray" where
  "np_dot a b =
     (if shape1 a \<noteq> shape0 b then Inl ValueError
      else Inr \<lparr>shape0 = shape0 a, shape1 = shape1 b,
                rows = map (\<lambda>r. map (\<lambda>j. (\<Sum>k < shape1 a. r ! k * rows b ! k ! j))
                                  [0..<shape1 b])
                         (rows a)\<rparr>)"

definition euclidean_numpy :: "real ndarray \<Rightarrow> real ndarray \<Rightarrow> error + real ndarray" where
  "euclidean_numpy x y =
     (let x2 = einsum_ij_ij_i x x;
          y2 = einsum_ij_ij_i y y
      in case np_dot x (transpose_nd y) of
           Inl e \<Rightarrow> Inl e
         | Inr xy \<Rightarrow>
             Inr \<lparr>shape0 = shape0 x, shape1 = shape0 y,
                  rows = map (\<lambda>i. map (\<lambda>j. \<bar>x2 ! i + y2 ! j - 2 * rows xy ! i ! j\<bar>)
                                    [0..<shape0 y])
                           [0..<shape0 x]\<rparr>)"

text \<open>
  The sum of \<open>f 0, ..., f (m - 1)\<close> as the reduction loops build it: from \<open>0.0\<close>, one
  term after the other in the order of the index.
\<close>

definition sum_in_order :: "'a fp_ops \<Rightarrow> (nat \<Rightarrow> 'a) \<Rightarrow> nat \<Rightarrow> 'a" where
  "sum_in_order fp f m = foldl (\<lambda>r k. fp_add fp r (f k)) (fp_zero fp) [0..<m]"

subsection \<open>Sample inputs\<close>

definition sample_x :: "real ndarray" where
  "sample_x = \<lparr>shape0 = 2, shape1 = 2, rows = [[0, 1], [3, - 1]]\<rparr>"

definition sample_y :: "real ndarray" where
  "sample_y = \<lparr>shape0 = 2, shape1 = 2, rows = [[1, 1], [0, 1 / 2]]\<rparr>"

definition tall_y :: "real ndarray" where
  "tall_y = \<lparr>shape0 = 3, shape1 = 3, rows = [[1, 1, 9], [0, 1 / 2, 9], [5, 5, 5]]\<rparr>"

definition junk_a :: "nat \<Rightarrow> nat \<Rightarrow> real" where
  "junk_a i j = 7"

definition junk_b :: "nat \<Rightarrow> nat \<Rightarrow> real" where
  "junk_b i j = real i - real j"

section \<open>Julia set (Cython1, julia_set_cython)\<close>

text \<open>
  \<^verbatim>\<open>
  @wraparound(False)
  @boundscheck(False)
  def julia_set_cython(const double[:, :] X, const double[:, :] Y,
                       const double cx, const double cy,
                       const int iter_max, const double radius2,
                       int[:, :] julia):
      cdef:
          int i, j, k, nx, ny
          double x, y

      ny = X.shape[0]
      nx = X.shape[1]

      for i in range(ny):
          for j in range(nx):
              x = X[i, j]
              y = Y[i, j]
              k = 0
              while x * x + y * y < radius2 and k < iter_max:
                  x, y = x * x - y * y + cx, 2.0 * x * y + cy
                  k = k + 1

              julia[i, j] = k
  \<close>
  The \<open>while\<close> loop is a partial function: \<open>None\<close> stands for a loop that does not
  return, so that its termination is a theorem and not an assumption. The counter \<open>k\<close>
  is a C \<open>int\<close>; it is an integer here, and \<open>julia_while_bounds\<close> below shows that it
  stays between its start and \<open>iter_max\<close>, so the addition \<open>k + 1\<close> never leaves the
  range of \<open>int\<close>. An \<open>iter_max\<close> outside the range of a C \<open>int\<close> is rejected by
  the argument conversion before the body runs.
\<close>

partial_function (option) julia_while ::
  "'a fp_ops \<Rightarrow> 'a \<Rightarrow> 'a \<Rightarrow> 'a \<Rightarrow> 'a \<Rightarrow> int \<Rightarrow> 'a \<Rightarrow> int \<Rightarrow> int option" where
  "julia_while fp x y cx cy iter_max radius2 k =
     (if fp_less fp (fp_add fp (fp_mul fp x x) (fp_mul fp y y)) radius2 \<and> k < iter_max
      then julia_while fp
             (fp_add fp (fp_sub fp (fp_mul fp x x) (fp_mul fp y y)) cx)
             (fp_add fp (fp_mul fp (fp_mul fp (fp_two fp) x) y) cy)
             cx cy iter_max radius2 (k + 1)
      else Some k)"

text \<open>
  The loop over \<open>j\<close> and the loop over \<open>i\<close>. The kernel mutates \<open>julia\<close> in place;
  the model returns the updated array. The result is \<open>None\<close> when an inner loop does
  not return, \<open>Some (Inl e)\<close> when an access leaves an array, \<open>Some (Inr julia')\<close>
  otherwise.
\<close>

fun julia_cols ::
  "'a fp_ops \<Rightarrow> nat list \<Rightarrow> 'a ndarray \<Rightarrow> 'a ndarray \<Rightarrow> 'a \<Rightarrow> 'a \<Rightarrow> int \<Rightarrow> 'a \<Rightarrow> nat \<Rightarrow>
   int ndarray \<Rightarrow> (error + int ndarray) option" where
  "julia_cols fp [] X Y cx cy iter_max radius2 i julia = Some (Inr julia)"
| "julia_cols fp (j # js) X Y cx cy iter_max radius2 i julia =
     (case get_unchecked X i j of
        Inl e \<Rightarrow> Some (Inl e)
      | Inr x \<Rightarrow>
          (case get_unchecked Y i j of
             Inl e \<Rightarrow> Some (Inl e)
           | Inr y \<Rightarrow>
               (case julia_while fp x y cx cy iter_max radius2 0 of
                  None \<Rightarrow> None
                | Some k \<Rightarrow>
                    (case set_unchecked julia i j k of
                       Inl e \<Rightarrow> Some (Inl e)
                     | Inr julia' \<Rightarrow> julia_cols fp js X Y cx cy iter_max radius2 i julia'))))"

fun julia_rows ::
  "'a fp_ops \<Rightarrow> nat list \<Rightarrow> nat list \<Rightarrow> 'a ndarray \<Rightarrow> 'a ndarray \<Rightarrow> 'a \<Rightarrow> 'a \<Rightarrow> int \<Rightarrow> 'a \<Rightarrow>
   int ndarray \<Rightarrow> (error + int ndarray) option" where
  "julia_rows fp [] js X Y cx cy iter_max radius2 julia = Some (Inr julia)"
| "julia_rows fp (i # is) js X Y cx cy iter_max radius2 julia =
     (case julia_cols fp js X Y cx cy iter_max radius2 i julia of
        None \<Rightarrow> None
      | Some (Inl e) \<Rightarrow> Some (Inl e)
      | Some (Inr julia') \<Rightarrow> julia_rows fp is js X Y cx cy iter_max radius2 julia')"

text \<open>
  \<open>ny\<close> and \<open>nx\<close> are C \<open>int\<close>s: the assignments narrow the extents of \<open>X\<close>, and
  the loops run over the narrowed values.
\<close>

definition julia_set_cython ::
  "'a fp_ops \<Rightarrow> 'a ndarray \<Rightarrow> 'a ndarray \<Rightarrow> 'a \<Rightarrow> 'a \<Rightarrow> int \<Rightarrow> 'a \<Rightarrow> int ndarray \<Rightarrow>
   (error + int ndarray) option" where
  "julia_set_cython fp X Y cx cy iter_max radius2 julia =
     (let ny = c_int_of_extent (shape0 X);
          nx = c_int_of_extent (shape1 X)
      in julia_rows fp (range_py ny) (range_py nx) X Y cx cy iter_max radius2 julia)"

text \<open>
  The recurrence, its \<open>k\<close>-th iterate from a starting point, and the value of
  \<open>x * x + y * y\<close> at a point, in the arithmetic of the kernel.
\<close>

definition julia_step :: "'a fp_ops \<Rightarrow> 'a \<Rightarrow> 'a \<Rightarrow> 'a \<times> 'a \<Rightarrow> 'a \<times> 'a" where
  "julia_step fp cx cy p =
     (fp_add fp (fp_sub fp (fp_mul fp (fst p) (fst p)) (fp_mul fp (snd p) (snd p))) cx,
      fp_add fp (fp_mul fp (fp_mul fp (fp_two fp) (fst p)) (snd p)) cy)"

definition iterate :: "'a fp_ops \<Rightarrow> 'a \<Rightarrow> 'a \<Rightarrow> 'a \<times> 'a \<Rightarrow> nat \<Rightarrow> 'a \<times> 'a" where
  "iterate fp cx cy p k = (julia_step fp cx cy ^^ k) p"

definition norm2 :: "'a fp_ops \<Rightarrow> 'a \<times> 'a \<Rightarrow> 'a" where
  "norm2 fp p = fp_add fp (fp_mul fp (fst p) (fst p)) (fp_mul fp (snd p) (snd p))"

text \<open>
  The words of the specification: a point has escaped when \<open>x * x + y * y >= radius2\<close>,
  and the count of a cell is the least \<open>k\<close> whose iterate has escaped, \<open>iter_max\<close> when
  there is none below \<open>iter_max\<close>.
\<close>

definition escaped :: "'a fp_ops \<Rightarrow> 'a \<Rightarrow> 'a \<times> 'a \<Rightarrow> bool" where
  "escaped fp radius2 p \<longleftrightarrow> fp_le fp radius2 (norm2 fp p)"

definition escape_count_spec :: "'a fp_ops \<Rightarrow> 'a \<Rightarrow> 'a \<Rightarrow> int \<Rightarrow> 'a \<Rightarrow> 'a \<times> 'a \<Rightarrow> int" where
  "escape_count_spec fp cx cy iter_max radius2 p =
     (if \<exists>k. int k < iter_max \<and> escaped fp radius2 (iterate fp cx cy p k)
      then int (LEAST k. escaped fp radius2 (iterate fp cx cy p k))
      else iter_max)"

text \<open>
  What the kernel stores: a point stays in the loop while it passes the test
  \<open>x * x + y * y < radius2\<close>, and the count of a cell is the least \<open>k\<close> whose iterate
  fails the test, capped at \<open>iter_max\<close> and never below zero. With NaN a point may fail
  the test without having escaped.
\<close>

definition in_radius :: "'a fp_ops \<Rightarrow> 'a \<Rightarrow> 'a \<times> 'a \<Rightarrow> bool" where
  "in_radius fp radius2 p \<longleftrightarrow> fp_less fp (norm2 fp p) radius2"

definition escape_count :: "'a fp_ops \<Rightarrow> 'a \<Rightarrow> 'a \<Rightarrow> int \<Rightarrow> 'a \<Rightarrow> 'a \<times> 'a \<Rightarrow> int" where
  "escape_count fp cx cy iter_max radius2 p =
     (if \<exists>k. int k < iter_max \<and> \<not> in_radius fp radius2 (iterate fp cx cy p k)
      then int (LEAST k. \<not> in_radius fp radius2 (iterate fp cx cy p k))
      else max 0 iter_max)"

subsection \<open>Sample inputs\<close>

definition sample_X :: "real ndarray" where
  "sample_X = \<lparr>shape0 = 1, shape1 = 2, rows = [[0, 3 / 2]]\<rparr>"

definition sample_Y :: "real ndarray" where
  "sample_Y = \<lparr>shape0 = 1, shape1 = 2, rows = [[0, 1]]\<rparr>"

definition sample_julia :: "int ndarray" where
  "sample_julia = \<lparr>shape0 = 1, shape1 = 2, rows = [[7, 7]]\<rparr>"

definition sample_julia' :: "int ndarray" where
  "sample_julia' = \<lparr>shape0 = 1, shape1 = 2, rows = [[0, 9]]\<rparr>"

section \<open>Properties of the Monte Carlo estimate\<close>

lemma pi_mc_loop_count:
  "pi_mc_loop fp ks draws pos c =
     (pos + 2 * length ks,
      c + int (card {t. t < length ks \<and> in_quarter_circle fp draws pos t}))"
proof (induction ks arbitrary: pos c)
  case Nil
  show ?case by simp
next
  case (Cons k ks)
  let ?P = "in_quarter_circle fp draws pos"
  let ?Q = "in_quarter_circle fp draws (Suc (Suc pos))"
  have shift: "\<And>t. ?Q t = ?P (Suc t)"
    by (simp add: in_quarter_circle_def)
  have split: "{t. t < Suc (length ks) \<and> ?P t} =
      (if ?P 0 then {0} else {}) \<union> Suc ` {t. t < length ks \<and> ?Q t}"
    by (auto simp: shift less_Suc_eq_0_disj image_iff)
  have fin: "finite {t. t < length ks \<and> ?Q t}" by simp
  have "card {t. t < Suc (length ks) \<and> ?P t} =
      (if ?P 0 then 1 else 0) + card {t. t < length ks \<and> ?Q t}"
    unfolding split using fin
    by (simp add: card_image card_insert_if image_iff)
  moreover have "?P 0 \<longleftrightarrow>
      fp_le fp (fp_add fp (fp_pow2 fp (draws pos)) (fp_pow2 fp (draws (Suc pos)))) (fp_one fp)"
    by (simp add: in_quarter_circle_def)
  ultimately show ?case
    by (simp add: random_draw_def Cons.IH)
qed

lemma float_limit_pos: "0 < float_limit"
  by (simp add: float_limit_def)

lemma count_le: "card {t. t < m \<and> P t} \<le> m"
proof -
  have "card {t. t < m \<and> P t} \<le> card {..<m}"
    by (rule card_mono) auto
  then show ?thesis by simp
qed

text \<open>
  The value of a call, for every argument: the count converts whenever \<open>n\<close> does, so
  the outcome is decided by \<open>n\<close> alone.
\<close>

lemma pi_mc_result:
  "pi_mc fp n draws pos =
     (if float_limit \<le> \<bar>n\<bar> then Inl OverflowError
      else if n = 0 then Inl ZeroDivisionError
      else Inr (fp_div fp
             (fp_mul fp (fp_four fp)
                (fp_of_int fp (int (card {t. t < nat n \<and> in_quarter_circle fp draws pos t}))))
             (fp_of_int fp n)),
      pos + 2 * nat n)"
proof -
  let ?c = "card {t. t < nat n \<and> in_quarter_circle fp draws pos t}"
  have loop: "pi_mc_loop fp (range_py n) draws pos 0 = (pos + 2 * nat n, int ?c)"
    by (simp add: pi_mc_loop_count range_py_def)
  have c: "int ?c \<le> \<bar>n\<bar>"
    using count_le [of "nat n" "in_quarter_circle fp draws pos"] by linarith
  show ?thesis
  proof (cases "float_limit \<le> \<bar>n\<bar>")
    case True
    then have "py_float fp n = Inl OverflowError" by (simp add: py_float_def)
    then show ?thesis using True loop
      by (cases "py_float fp (int ?c)") (auto simp: pi_mc_def py_float_def split: if_splits)
  next
    case False
    then have "\<bar>int ?c\<bar> < float_limit" using c by linarith
    then show ?thesis using False loop by (simp add: pi_mc_def py_float_def)
  qed
qed

text \<open>
  C4, as stated, promises a value for every \<open>n \<ge> 1\<close>. The division converts \<open>n\<close> to
  a double, and an \<open>n\<close> that has no double makes the call raise after its \<open>n\<close> passes.
\<close>

theorem pi_mc_huge_counterexample:
  "(1::int) \<le> 2 ^ 1024 \<and>
   pi_mc exact (2 ^ 1024) sample_draws 0 = (Inl OverflowError, 2 * nat (2 ^ 1024))"
proof -
  have "float_limit \<le> \<bar>2 ^ 1024\<bar>" by (simp add: float_limit_def)
  then have "pi_mc exact (2 ^ 1024) sample_draws 0 = (Inl OverflowError, 0 + 2 * nat (2 ^ 1024))"
    by (simp only: pi_mc_result if_True)
  then show ?thesis by simp
qed

text \<open>
  C4, amended. For \<open>n \<ge> 1\<close> and every sequence of draws, \<open>pi_mc(n)\<close> consumes exactly
  \<open>n\<close> pairs of draws (the generator advances by \<open>2 * n\<close>). When \<open>n\<close> converts to a
  double (\<open>n < 2\<^sup>1\<^sup>0\<^sup>2\<^sup>4 - 2\<^sup>9\<^sup>7\<^sup>0\<close>) it returns the double \<open>4.0 * c / n\<close>, where \<open>c\<close> is the
  number of those pairs that pass the test \<open>x ** 2 + y ** 2 <= 1.0\<close>, all in the arithmetic
  of the doubles; for a larger \<open>n\<close> it raises \<open>OverflowError\<close>.
\<close>

theorem pi_mc_estimate:
  "1 \<le> n \<Longrightarrow>
   pi_mc fp n draws pos =
     (if n < float_limit
      then Inr (fp_div fp
             (fp_mul fp (fp_four fp)
                (fp_of_int fp (int (card {t. t < nat n \<and> in_quarter_circle fp draws pos t}))))
             (fp_of_int fp n))
      else Inl OverflowError,
      pos + 2 * nat n)"
  by (simp add: pi_mc_result)

theorem pi_mc_estimate_witness:
  "(1::int) \<le> 2 \<and> pi_mc exact 2 sample_draws 0 = (Inr 2, 4)"
proof -
  have "{t. t < nat 2 \<and> in_quarter_circle exact sample_draws 0 t} = {0}"
    by (auto simp: in_quarter_circle_def sample_draws_def exact_def power2_eq_square
        less_Suc_eq numeral_2_eq_2)
  moreover have "(2::int) < float_limit" by (simp add: float_limit_def)
  ultimately show ?thesis
    using pi_mc_estimate [of 2 exact sample_draws 0] by (simp add: exact_def)
qed

text \<open>
  C5, as stated, asks for a failure on every non-positive argument. The source has no
  argument check: for a negative \<open>n\<close> the loop body never runs and the division
  \<open>4.0 * 0 / n\<close> returns zero.
\<close>

theorem pi_mc_negative_counterexample:
  "\<not> (0::int) < - 3 \<and> pi_mc exact (- 3) sample_draws 0 = (Inr 0, 0)"
proof -
  have "\<not> float_limit \<le> \<bar>- 3\<bar>" by (simp add: float_limit_def)
  then show ?thesis by (simp add: pi_mc_result exact_def)
qed

text \<open>
  C5, amended. \<open>pi_mc\<close> validates nothing. A call raises \<open>ZeroDivisionError\<close> exactly
  when \<open>n = 0\<close> and \<open>OverflowError\<close> exactly when \<open>n\<close> does not convert to a double
  (\<open>|n| \<ge> 2\<^sup>1\<^sup>0\<^sup>2\<^sup>4 - 2\<^sup>9\<^sup>7\<^sup>0\<close>); it returns normally for every other \<open>n\<close>, negative
  or positive.
\<close>

theorem pi_mc_raises_iff:
  "(fst (pi_mc fp n draws pos) = Inl ZeroDivisionError \<longleftrightarrow> n = 0) \<and>
   (fst (pi_mc fp n draws pos) = Inl OverflowError \<longleftrightarrow> float_limit \<le> \<bar>n\<bar>) \<and>
   ((\<exists>v. fst (pi_mc fp n draws pos) = Inr v) \<longleftrightarrow> n \<noteq> 0 \<and> \<bar>n\<bar> < float_limit)"
  using float_limit_pos by (auto simp: pi_mc_result)

section \<open>Properties of CyRangeVector\<close>

subsection \<open>Facts about 32-bit words\<close>

lemma uint_32_bound: "uint (w :: 32 word) < 2 ^ 32"
  using uint_lt2p [of w] by simp

lemma unat_32_bound: "unat (w :: 32 word) < 2 ^ 32"
  using unsigned_less [of w] by simp

lemma sint_32_cases:
  "sint (w :: 32 word) = (if uint w < 2 ^ 31 then uint w else uint w - 2 ^ 32)"
proof -
  have s: "sint w = (uint w + 2 ^ 31) mod 2 ^ 32 - 2 ^ 31"
    by (simp add: sint_uint signed_take_bit_eq_take_bit_shift take_bit_eq_mod)
  have b: "0 \<le> uint w" "uint w < 2 ^ 32"
    using uint_32_bound [of w] by simp_all
  show ?thesis
  proof (cases "uint w < 2 ^ 31")
    case True
    then have "(uint w + 2 ^ 31) mod 2 ^ 32 = uint w + 2 ^ 31"
      using b by (simp add: mod_pos_pos_trivial)
    then show ?thesis using s True by simp
  next
    case False
    then have "(uint w - 2 ^ 31) mod 2 ^ 32 = uint w - 2 ^ 31"
      using b by (simp add: mod_pos_pos_trivial)
    moreover have "uint w + 2 ^ 31 = uint w - 2 ^ 31 + 2 ^ 32"
      by simp
    ultimately have "(uint w + 2 ^ 31) mod 2 ^ 32 = uint w - 2 ^ 31"
      by (simp only: mod_add_self2)
    then show ?thesis using s False by simp
  qed
qed

lemma unat_of_nat_sub:
  fixes start :: "32 word"
  assumes "unat start \<le> n" "n < 2 ^ 32"
  shows "unat (of_nat n - start) = n - unat start"
proof -
  have n: "unat (of_nat n :: 32 word) = n"
    using assms(2) by (simp add: unat_of_nat)
  then have "start \<le> of_nat n"
    using assms(1) by (simp add: word_le_nat_alt)
  then show ?thesis using n by (simp add: unat_sub)
qed

lemma start_plus_offset:
  fixes start :: "32 word"
  assumes "unat start \<le> n"
  shows "start + of_nat (n - unat start) = of_nat n"
  using assms by simp

lemma size_no_wrap:
  fixes start :: "32 word"
  assumes "start <s end" "unat start < unat end"
  shows "sint (end - start) = uint end - uint start"
    and "uint (end - start) = uint end - uint start"
    and "uint end - uint start < 2 ^ 31"
proof -
  have "start < end" using assms(2) by (simp add: word_less_nat_alt)
  then have lt: "uint start < uint end" by (simp add: word_less_alt)
  have slt: "sint start < sint end" using assms(1) by (simp add: word_sless_alt)
  have b: "uint end < 2 ^ 32" "0 \<le> uint start" by (rule uint_32_bound) simp
  have same: "(uint start < 2 ^ 31) = (uint end < 2 ^ 31)"
  proof (rule ccontr)
    assume "(uint start < 2 ^ 31) \<noteq> (uint end < 2 ^ 31)"
    then consider "uint start < 2 ^ 31" "\<not> uint end < 2 ^ 31"
      | "\<not> uint start < 2 ^ 31" "uint end < 2 ^ 31" by blast
    then show False
    proof cases
      case 1
      then have "sint start = uint start" "sint end = uint end - 2 ^ 32"
        by (simp_all add: sint_32_cases)
      then have "uint start < uint end - 2 ^ 32" using slt by simp
      moreover have "0 \<le> uint start" by simp
      ultimately show False using b(1) by linarith
    next
      case 2
      then show False using lt by linarith
    qed
  qed
  show d: "uint (end - start) = uint end - uint start"
    using lt by (simp add: uint_sub_if')
  show small: "uint end - uint start < 2 ^ 31"
  proof (cases "uint end < 2 ^ 31")
    case True
    moreover have "0 \<le> uint start" by simp
    ultimately show ?thesis by linarith
  next
    case False
    then have "\<not> uint start < 2 ^ 31" using same by simp
    then show ?thesis using b(1) by simp
  qed
  show "sint (end - start) = uint end - uint start"
    using d small by (simp add: sint_32_cases [of "end - start"])
qed


lemma sint_diff_le:
  fixes start :: "32 word"
  assumes "sint start < sint end"
  shows "sint (end - start) \<le> sint end - sint start"
proof -
  have "- (2 ^ 31) \<le> sint end - sint start" using assms by simp
  then have "signed_take_bit 31 (sint end - sint start) \<le> sint end - sint start"
    by (simp only: signed_take_bit_int_less_eq_self_iff)
  then show ?thesis by (simp add: sint_word_diff)
qed

lemma malloc_ints_size:
  fixes start :: "32 word"
  assumes "start <s end" "unat start < unat end"
  shows "malloc_ints (scast (end - start) * 4) = replicate (unat end - unat start) None"
proof -
  let ?d = "uint end - uint start"
  have "start < end" using assms(2) by (simp add: word_less_nat_alt)
  then have pos: "0 < ?d" by (simp add: word_less_alt)
  have small: "?d < 2 ^ 31" by (rule size_no_wrap(3) [OF assms])
  have e1: "(scast (end - start) :: 64 word) = word_of_int ?d"
    by (simp only: scast_eq size_no_wrap(1) [OF assms])
  have e2: "(word_of_int ?d :: 64 word) * 4 = word_of_int (?d * 4)"
    by simp
  have "(?d * 4) mod 2 ^ 64 = ?d * 4"
    using pos small by (simp add: mod_pos_pos_trivial)
  then have e3: "uint (word_of_int (?d * 4) :: 64 word) = ?d * 4"
    unfolding uint_word_of_int by simp
  have u: "uint ((scast (end - start) :: 64 word) * 4) = ?d * 4"
    by (simp only: e1 e2 e3)
  have n: "unat ((scast (end - start) :: 64 word) * 4) = nat (?d * 4)"
    by (simp only: unat_eq_nat_uint u)
  have "nat (?d * 4) = 4 * (unat end - unat start)"
    using pos by (simp add: nat_diff_distrib nat_mult_distrib)
  then have "unat ((scast (end - start) :: 64 word) * 4) = 4 * (unat end - unat start)"
    using n by simp
  moreover have "4 * (unat end - unat start) < (2::nat) ^ 63"
    using unat_32_bound [of "end"] by simp
  ultimately show ?thesis by (simp add: malloc_ints_def)
qed

lemma cinit_malloc_loop_fills:
  fixes start :: "32 word"
  assumes "unat start \<le> a" "b \<le> unat start + length cells" "b \<le> 2 ^ 32"
  shows "\<exists>cells'. cinit_malloc_loop (map of_nat [a..<b]) start cells = Inr cells' \<and>
           length cells' = length cells \<and>
           (\<forall>idx < length cells. cells' ! idx =
              (if a - unat start \<le> idx \<and> idx < b - unat start
               then Some (start + of_nat idx) else cells ! idx))"
  using assms
proof (induction "b - a" arbitrary: a cells)
  case 0
  then have "b \<le> a" by simp
  moreover from this have "\<not> (a - unat start \<le> idx \<and> idx < b - unat start)" for idx
    by arith
  ultimately show ?case by auto
next
  case (Suc n)
  then have ab: "a < b" by simp
  let ?i = "of_nat a :: 32 word"
  let ?cells1 = "cells[a - unat start := Some ?i]"
  have idx: "unat (?i - start) = a - unat start"
    using Suc.prems ab by (simp add: unat_of_nat_sub)
  have inb: "a - unat start < length cells"
    using Suc.prems ab by simp
  have step: "cinit_malloc_loop (map of_nat [a..<b]) start cells =
      cinit_malloc_loop (map of_nat [Suc a..<b]) start ?cells1"
    using ab idx inb by (simp add: upt_conv_Cons store_def)
  have "n = b - Suc a" using Suc.hyps(2) by simp
  moreover have "unat start \<le> Suc a" "b \<le> unat start + length ?cells1"
    using Suc.prems by simp_all
  ultimately obtain cells' where
    r: "cinit_malloc_loop (map of_nat [Suc a..<b]) start ?cells1 = Inr cells'"
    and l: "length cells' = length ?cells1"
    and c: "\<forall>idx < length ?cells1. cells' ! idx =
              (if Suc a - unat start \<le> idx \<and> idx < b - unat start
               then Some (start + of_nat idx) else ?cells1 ! idx)"
    using Suc.hyps(1) [of "Suc a" ?cells1] Suc.prems(3) by blast
  have v: "start + of_nat (a - unat start) = ?i"
    using Suc.prems(1) by (rule start_plus_offset)
  have "\<forall>idx < length cells. cells' ! idx =
              (if a - unat start \<le> idx \<and> idx < b - unat start
               then Some (start + of_nat idx) else cells ! idx)"
  proof (intro allI impI)
    fix idx assume lt: "idx < length cells"
    show "cells' ! idx =
              (if a - unat start \<le> idx \<and> idx < b - unat start
               then Some (start + of_nat idx) else cells ! idx)"
    proof (cases "idx = a - unat start")
      case True
      have n1: "\<not> Suc a - unat start \<le> a - unat start"
        using Suc.prems(1) by arith
      have n2: "a - unat start < b - unat start"
        using Suc.prems(1) ab by arith
      have "cells' ! (a - unat start) = ?cells1 ! (a - unat start)"
        using c inb n1 by simp
      also have "\<dots> = Some ?i" using inb by simp
      finally show ?thesis using True n2 v by simp
    next
      case False
      then show ?thesis using c lt Suc.prems(1) by (auto simp: nth_list_update)
    qed
  qed
  then show ?case using step r l by simp
qed

lemma cinit_vector_loop_append: "cinit_vector_loop ns v = v @ ns"
  by (induction ns arbitrary: v) simp_all

lemma cinit_malloc_succeeds:
  fixes start :: "32 word"
  assumes "start <s end"
  shows "\<exists>cells. cinit_malloc start end = Inr \<lparr>data_m = cells, size_m = end - start\<rparr> \<and>
           (unat start < unat end \<longrightarrow>
              length cells = unat end - unat start \<and>
              (\<forall>idx < unat end - unat start. cells ! idx = Some (start + of_nat idx)))"
proof (cases "unat start < unat end")
  case False
  then show ?thesis
    using assms by (simp add: cinit_malloc_def unsigned_range_def signed.not_le Let_def)
next
  case True
  let ?cells = "replicate (unat end - unat start) (None :: 32 word option)"
  have m: "malloc_ints (scast (end - start) * 4) = ?cells"
    using assms True by (rule malloc_ints_size)
  have "unat end \<le> unat start + length ?cells" using True by simp
  moreover have "unat end \<le> 2 ^ 32" using unat_32_bound [of "end"] by simp
  ultimately obtain cells' where
    r: "cinit_malloc_loop (map of_nat [unat start..<unat end]) start ?cells = Inr cells'"
    and l: "length cells' = length ?cells"
    and c: "\<forall>idx < length ?cells. cells' ! idx =
              (if unat start - unat start \<le> idx \<and> idx < unat end - unat start
               then Some (start + of_nat idx) else ?cells ! idx)"
    using cinit_malloc_loop_fills [of start "unat start" "unat end" ?cells] by blast
  have "cinit_malloc start end = Inr \<lparr>data_m = cells', size_m = end - start\<rparr>"
    using assms m r by (simp add: cinit_malloc_def unsigned_range_def signed.not_le Let_def)
  then show ?thesis using l c True by simp
qed


lemma uint_of_nonneg_sint:
  fixes w :: "32 word"
  assumes "0 \<le> sint w"
  shows "uint w = sint w"
proof (cases "uint w < 2 ^ 31")
  case True
  then show ?thesis by (simp add: sint_32_cases)
next
  case False
  then have "sint w = uint w - 2 ^ 32" by (simp add: sint_32_cases)
  then show ?thesis using assms uint_32_bound [of w] by simp
qed

lemma unat_less_of_sint:
  fixes start "end" :: "32 word"
  assumes "0 \<le> sint start" "sint start < sint end"
  shows "unat start < unat end"
proof -
  have "0 \<le> sint end" using assms by linarith
  then have "uint end = sint end" by (rule uint_of_nonneg_sint)
  moreover have "uint start = sint start" using assms(1) by (rule uint_of_nonneg_sint)
  ultimately have "uint start < uint end" using assms(2) by simp
  then show ?thesis by (simp add: word_less_alt [symmetric] word_less_nat_alt)
qed

lemma sless_iff_sint: "(a <s b) = (sint a < sint b)" "(a \<le>s b) = (sint a \<le> sint b)"
  by (simp_all add: word_sless_alt word_sle_eq)

text \<open>
  C6. In both variants \<open>__cinit__\<close> raises exactly when \<open>start \<ge> end\<close>, and the
  construction succeeds for every \<open>start < end\<close>.
\<close>

theorem cinit_raises_iff:
  "(cinit_malloc start end = Inl Exception \<longleftrightarrow> sint end \<le> sint start) \<and>
   ((\<exists>v. cinit_malloc start end = Inr v) \<longleftrightarrow> sint start < sint end) \<and>
   (cinit_vector start end = Inl Exception \<longleftrightarrow> sint end \<le> sint start) \<and>
   ((\<exists>v. cinit_vector start end = Inr v) \<longleftrightarrow> sint start < sint end)"
proof -
  have m: "\<exists>v. cinit_malloc start end = Inr v" if "sint start < sint end"
    using cinit_malloc_succeeds [of start "end"] that by (auto simp: sless_iff_sint)
  have m': "cinit_malloc start end = Inl Exception" if "sint end \<le> sint start"
    using that by (simp add: cinit_malloc_def sless_iff_sint)
  have 1: "cinit_malloc start end = Inl Exception \<longleftrightarrow> sint end \<le> sint start"
    using m m' by (cases "sint end \<le> sint start") auto
  have 2: "(\<exists>v. cinit_malloc start end = Inr v) \<longleftrightarrow> sint start < sint end"
    using m m' by (cases "sint end \<le> sint start") auto
  have 3: "cinit_vector start end = Inl Exception \<longleftrightarrow> sint end \<le> sint start"
    by (simp add: cinit_vector_def sless_iff_sint)
  have 4: "(\<exists>v. cinit_vector start end = Inr v) \<longleftrightarrow> sint start < sint end"
    by (auto simp: cinit_vector_def sless_iff_sint)
  show ?thesis using 1 2 3 4 by blast
qed

theorem cinit_raises_iff_witness:
  "cinit_malloc 7 7 = Inl Exception \<and> cinit_vector 9 2 = Inl Exception \<and>
   (\<exists>v. cinit_malloc (- 5) 3 = Inr v) \<and> (\<exists>v. cinit_vector 1 20 = Inr v)"
  using cinit_raises_iff [of 7 7] cinit_raises_iff [of 9 2]
    cinit_raises_iff [of "- 5" 3] cinit_raises_iff [of 1 20]
  by simp

text \<open>
  C10. For \<open>0 \<le> start < end\<close> and a valid index \<open>0 \<le> i < end - start\<close>,
  \<open>__getitem__(i)\<close> returns \<open>start + i\<close> in both variants: the buffer holds
  \<open>start, start + 1, ..., end - 1\<close> in order.
\<close>

theorem getitem_in_range:
  assumes "0 \<le> sint start" "sint start < sint end"
    and "0 \<le> sint i" "sint i < sint end - sint start"
  shows "(\<exists>v. cinit_malloc start end = Inr v \<and>
            getitem_malloc v i = Inr (PyInt (sint start + sint i))) \<and>
         (\<exists>v. cinit_vector start end = Inr v \<and>
            getitem_vector v i = Inr (PyInt (sint start + sint i)))"
proof -
  have "0 \<le> sint end" using assms(1,2) by linarith
  then have ue: "uint end = sint end" by (rule uint_of_nonneg_sint)
  have us: "uint start = sint start" using assms(1) by (rule uint_of_nonneg_sint)
  have ui: "uint i = sint i" using assms(3) by (rule uint_of_nonneg_sint)
  have lt: "unat start < unat end" using assms(1,2) by (rule unat_less_of_sint)
  have sl: "start <s end" using assms(2) by (simp add: sless_iff_sint)
  have ni: "unat i < unat end - unat start"
  proof -
    have "uint i < uint end - uint start" using assms(4) us ue ui by simp
    then have "int (unat i) < int (unat end) - int (unat start)" by (simp only: uint_nat)
    then show ?thesis by linarith
  qed
  have sz: "sint (end - start) = sint end - sint start"
    using size_no_wrap(1) [OF sl lt] us ue by simp
  have val: "sint (start + i) = sint start + sint i"
  proof -
    have "sint end < 2 ^ 31" using sint_lt [of "end"] by simp
    then have "sint start + sint i < 2 ^ 31" using assms(4) by linarith
    moreover have "- (2 ^ 31) \<le> sint start + sint i" using assms(1,3) by simp
    ultimately have "signed_take_bit 31 (sint start + sint i) = sint start + sint i"
      by (simp only: signed_take_bit_int_eq_self)
    then show ?thesis by (simp add: sint_word_add)
  qed
  obtain cells where
    c: "cinit_malloc start end = Inr \<lparr>data_m = cells, size_m = end - start\<rparr>"
    and l: "length cells = unat end - unat start"
    and n: "\<forall>idx < unat end - unat start. cells ! idx = Some (start + of_nat idx)"
    using cinit_malloc_succeeds [OF sl] lt by blast
  have "getitem_malloc \<lparr>data_m = cells, size_m = end - start\<rparr> i =
      Inr (PyInt (sint start + sint i))"
    using assms(3,4) ni l n sz val by (simp add: getitem_malloc_def sless_iff_sint)
  then have malloc: "\<exists>v. cinit_malloc start end = Inr v \<and>
      getitem_malloc v i = Inr (PyInt (sint start + sint i))"
    using c by blast
  let ?data = "map of_nat [unat start..<unat end] :: 32 word list"
  have v: "cinit_vector start end = Inr \<lparr>data_v = ?data\<rparr>"
    using sl by (simp add: cinit_vector_def cinit_vector_loop_append unsigned_range_def
        signed.not_le)
  have u64: "unat (scast i :: 64 word) = unat i"
  proof -
    have "sint i < 2 ^ 31" using sint_lt [of i] by simp
    then have "sint i mod 2 ^ 64 = sint i" using assms(3) by (simp add: mod_pos_pos_trivial)
    then have "uint (word_of_int (sint i) :: 64 word) = uint i"
      unfolding uint_word_of_int using ui by simp
    then show ?thesis by (simp only: scast_eq unat_eq_nat_uint)
  qed
  have "?data ! unat i = start + i" using ni by simp
  then have "getitem_vector \<lparr>data_v = ?data\<rparr> i = Inr (PyInt (sint start + sint i))"
    using assms(3) ni u64 val by (simp add: getitem_vector_def sless_iff_sint)
  then show ?thesis using malloc v by blast
qed

theorem getitem_in_range_witness:
  "(\<exists>v. cinit_malloc 10 14 = Inr v \<and> getitem_malloc v 2 = Inr (PyInt 12)) \<and>
   (\<exists>v. cinit_vector 10 14 = Inr v \<and> getitem_vector v 2 = Inr (PyInt 12))"
  using getitem_in_range [of 10 14 2] by simp


text \<open>
  C7. For \<open>start < end\<close> and an index \<open>i < 0\<close> or \<open>i \<ge> end - start\<close>,
  \<open>__getitem__(i)\<close> returns the sentinel without reading the buffer: \<open>-1\<close> in the
  malloc-backed variant, \<open>None\<close> in the vector variant.
\<close>

theorem getitem_out_of_range:
  assumes "sint start < sint end"
    and "sint i < 0 \<or> sint end - sint start \<le> sint i"
  shows "(\<exists>v. cinit_malloc start end = Inr v \<and> getitem_malloc v i = Inr (PyInt (- 1))) \<and>
         (\<exists>v. cinit_vector start end = Inr v \<and> getitem_vector v i = Inr PyNone)"
proof -
  have sl: "start <s end" using assms(1) by (simp add: sless_iff_sint)
  obtain cells where
    c: "cinit_malloc start end = Inr \<lparr>data_m = cells, size_m = end - start\<rparr>"
    using cinit_malloc_succeeds [OF sl] by blast
  have "sint (end - start) \<le> sint i \<or> sint i < 0"
    using assms(2) sint_diff_le [OF assms(1)] by linarith
  then have "getitem_malloc \<lparr>data_m = cells, size_m = end - start\<rparr> i = Inr (PyInt (- 1))"
    by (simp add: getitem_malloc_def sless_iff_sint)
  then have malloc: "\<exists>v. cinit_malloc start end = Inr v \<and>
      getitem_malloc v i = Inr (PyInt (- 1))"
    using c by blast
  let ?data = "map of_nat [unat start..<unat end] :: 32 word list"
  have v: "cinit_vector start end = Inr \<lparr>data_v = ?data\<rparr>"
    using sl by (simp add: cinit_vector_def cinit_vector_loop_append unsigned_range_def
        signed.not_le)
  have "length ?data \<le> unat (scast i :: 64 word) \<or> sint i < 0"
  proof (cases "sint i < 0")
    case True
    then show ?thesis by simp
  next
    case False
    then have nn: "0 \<le> sint i" by simp
    have big: "sint end - sint start \<le> sint i" using assms(2) False by simp
    have "sint i < 2 ^ 31" using sint_lt [of i] by simp
    then have "sint i mod 2 ^ 64 = sint i" using nn by (simp add: mod_pos_pos_trivial)
    then have "uint (word_of_int (sint i) :: 64 word) = sint i"
      unfolding uint_word_of_int by simp
    then have u64: "unat (scast i :: 64 word) = nat (sint i)"
      by (simp only: scast_eq unat_eq_nat_uint)
    have "unat end - unat start \<le> nat (sint i)"
    proof (cases "unat start < unat end")
      case True
      have "uint end - uint start = sint (end - start)"
        using size_no_wrap(1) [OF sl True] by simp
      also have "\<dots> \<le> sint end - sint start" by (rule sint_diff_le [OF assms(1)])
      finally have "uint end - uint start \<le> sint i" using big by linarith
      then have "int (unat end) - int (unat start) \<le> sint i" by (simp only: uint_nat)
      then show ?thesis using nn by linarith
    next
      case False
      then show ?thesis by simp
    qed
    then show ?thesis using u64 by simp
  qed
  then have "getitem_vector \<lparr>data_v = ?data\<rparr> i = Inr PyNone"
    by (auto simp: getitem_vector_def sless_iff_sint)
  then show ?thesis using malloc v by blast
qed

theorem getitem_out_of_range_witness:
  "(\<exists>v. cinit_malloc 10 14 = Inr v \<and> getitem_malloc v 4 = Inr (PyInt (- 1))) \<and>
   (\<exists>v. cinit_vector 10 14 = Inr v \<and> getitem_vector v 4 = Inr PyNone) \<and>
   (\<exists>v. cinit_malloc (- 5) 3 = Inr v \<and> getitem_malloc v (- 1) = Inr (PyInt (- 1))) \<and>
   (\<exists>v. cinit_vector (- 5) 3 = Inr v \<and> getitem_vector v (- 1) = Inr PyNone)"
  using getitem_out_of_range [of 10 14 4] getitem_out_of_range [of "- 5" 3 "- 1"] by simp

section \<open>Properties of array access\<close>

lemma wf_ndarray_row:
  "wf_ndarray a \<Longrightarrow> i < shape0 a \<Longrightarrow> length (rows a ! i) = shape1 a"
  by (simp add: wf_ndarray_def list_all_length)

lemma set_unchecked_in_range:
  assumes "wf_ndarray a" "i < shape0 a" "j < shape1 a"
  shows "\<exists>a'. set_unchecked a i j v = Inr a' \<and> wf_ndarray a' \<and>
           shape0 a' = shape0 a \<and> shape1 a' = shape1 a \<and>
           (\<forall>p < shape0 a. \<forall>q < shape1 a.
              rows a' ! p ! q = (if p = i \<and> q = j then v else rows a ! p ! q))"
proof -
  let ?a' = "a\<lparr>rows := (rows a)[i := (rows a ! i)[j := v]]\<rparr>"
  have len: "length (rows a) = shape0 a" using assms(1) by (simp add: wf_ndarray_def)
  have row: "length (rows a ! p) = shape1 a" if "p < shape0 a" for p
    using assms(1) that by (rule wf_ndarray_row)
  have "wf_ndarray ?a'"
    using len row assms(2) by (auto simp: wf_ndarray_def list_all_length nth_list_update)
  moreover have "\<forall>p < shape0 a. \<forall>q < shape1 a.
      rows ?a' ! p ! q = (if p = i \<and> q = j then v else rows a ! p ! q)"
    using len row assms(2) by (simp add: nth_list_update)
  ultimately show ?thesis using assms(2,3) by (simp add: set_unchecked_def)
qed

lemma set_checked_in_range:
  assumes "wf_ndarray a" "i < shape0 a" "j < shape1 a"
  shows "\<exists>a'. set_checked a i j v = Inr a' \<and> wf_ndarray a' \<and>
           shape0 a' = shape0 a \<and> shape1 a' = shape1 a \<and>
           (\<forall>p < shape0 a. \<forall>q < shape1 a.
              rows a' ! p ! q = (if p = i \<and> q = j then v else rows a ! p ! q))"
  using set_unchecked_in_range [OF assms, of v] assms(2,3)
  by (simp add: set_checked_def set_unchecked_def)

lemma ndarray_eqI:
  fixes a b :: "'a ndarray"
  assumes "wf_ndarray a" "wf_ndarray b" "shape0 a = shape0 b" "shape1 a = shape1 b"
    and "\<And>p q. p < shape0 a \<Longrightarrow> q < shape1 a \<Longrightarrow> rows a ! p ! q = rows b ! p ! q"
  shows "a = b"
proof -
  have la: "length (rows a) = shape0 a" and lb: "length (rows b) = shape0 b"
    using assms(1,2) by (simp_all add: wf_ndarray_def)
  have "rows a = rows b"
  proof (rule nth_equalityI)
    show "length (rows a) = length (rows b)" using la lb assms(3) by simp
  next
    fix p assume "p < length (rows a)"
    then have p: "p < shape0 a" using la by simp
    show "rows a ! p = rows b ! p"
    proof (rule nth_equalityI)
      show "length (rows a ! p) = length (rows b ! p)"
        using p assms(1-4) by (simp add: wf_ndarray_row)
    next
      fix q assume "q < length (rows a ! p)"
      then have "q < shape1 a" using p assms(1) by (simp add: wf_ndarray_row)
      with p show "rows a ! p ! q = rows b ! p ! q" by (rule assms(5))
    qed
  qed
  then show ?thesis using assms(3,4) by simp
qed

section \<open>Properties of the distance kernels\<close>

text \<open>
  Each loop kernel, started on an output buffer of the right shape, fills it with the
  sums over the features, provided \<open>y\<close> has the rows and columns the loops read.
\<close>

lemma euclidean_numba1_k_fold:
  assumes "i < shape0 x" "j < shape0 y" "\<forall>k \<in> set ks. k < shape1 x \<and> k < shape1 y"
  shows "euclidean_numba1_k fp ks x y i j r =
           Inr (foldl (\<lambda>r k. fp_add fp r (fp_pow2 fp (fp_sub fp (rows x ! i ! k) (rows y ! j ! k))))
                  r ks)"
  using assms(3)
proof (induction ks arbitrary: r)
  case Nil
  show ?case by simp
next
  case (Cons k ks)
  then show ?case using assms(1,2) by (simp add: get_unchecked_def)
qed

lemma euclidean_numba1_j_result:
  assumes "wf_ndarray d" "shape0 d = n" "shape1 d = n"
    and "shape0 x = n" "shape1 x = m" "n \<le> shape0 y" "m \<le> shape1 y"
    and "i < n" "\<forall>j \<in> set js. j < n"
  shows "\<exists>d'. euclidean_numba1_j fp js [0..<m] x y i d = Inr d' \<and>
           wf_ndarray d' \<and> shape0 d' = n \<and> shape1 d' = n \<and>
           (\<forall>p < n. \<forall>q < n. rows d' ! p ! q =
              (if p = i \<and> q \<in> set js
               then sum_in_order fp
                      (\<lambda>k. fp_pow2 fp (fp_sub fp (rows x ! i ! k) (rows y ! q ! k))) m
               else rows d ! p ! q))"
  using assms(1,2,3,9)
proof (induction js arbitrary: d)
  case Nil
  then show ?case by simp
next
  case (Cons j js)
  let ?f = "\<lambda>q k. fp_pow2 fp (fp_sub fp (rows x ! i ! k) (rows y ! q ! k))"
  let ?r = "sum_in_order fp (?f j) m"
  have j: "j < n" using Cons.prems(4) by simp
  have "euclidean_numba1_k fp [0..<m] x y i j (fp_zero fp) =
      Inr (foldl (\<lambda>r k. fp_add fp r (?f j k)) (fp_zero fp) [0..<m])"
    using assms(4,5,6,7,8) j by (intro euclidean_numba1_k_fold) auto
  then have k: "euclidean_numba1_k fp [0..<m] x y i j (fp_zero fp) = Inr ?r"
    by (simp add: sum_in_order_def)
  obtain d1 where s: "set_unchecked d i j ?r = Inr d1" and w1: "wf_ndarray d1"
    and sh1: "shape0 d1 = n" "shape1 d1 = n"
    and e1: "\<forall>p < n. \<forall>q < n.
               rows d1 ! p ! q = (if p = i \<and> q = j then ?r else rows d ! p ! q)"
    using set_unchecked_in_range [of d i j ?r] Cons.prems(1,2,3) assms(8) j by auto
  have step: "euclidean_numba1_j fp (j # js) [0..<m] x y i d = euclidean_numba1_j fp js [0..<m] x y i d1"
    using k s by simp
  obtain d' where r: "euclidean_numba1_j fp js [0..<m] x y i d1 = Inr d'"
    and w: "wf_ndarray d'" and sh: "shape0 d' = n" "shape1 d' = n"
    and e: "\<forall>p < n. \<forall>q < n. rows d' ! p ! q =
              (if p = i \<and> q \<in> set js then sum_in_order fp (?f q) m else rows d1 ! p ! q)"
    using Cons.IH [of d1] w1 sh1 Cons.prems(4) by auto
  have "\<forall>p < n. \<forall>q < n. rows d' ! p ! q =
              (if p = i \<and> q \<in> set (j # js) then sum_in_order fp (?f q) m
               else rows d ! p ! q)"
    using e e1 by auto
  then show ?case using step r w sh by simp
qed

lemma euclidean_numba1_i_result:
  assumes "wf_ndarray d" "shape0 d = n" "shape1 d = n"
    and "shape0 x = n" "shape1 x = m" "n \<le> shape0 y" "m \<le> shape1 y"
    and "\<forall>i \<in> set is. i < n" "\<forall>j \<in> set js. j < n"
  shows "\<exists>d'. euclidean_numba1_i fp is js [0..<m] x y d = Inr d' \<and>
           wf_ndarray d' \<and> shape0 d' = n \<and> shape1 d' = n \<and>
           (\<forall>p < n. \<forall>q < n. rows d' ! p ! q =
              (if p \<in> set is \<and> q \<in> set js
               then sum_in_order fp
                      (\<lambda>k. fp_pow2 fp (fp_sub fp (rows x ! p ! k) (rows y ! q ! k))) m
               else rows d ! p ! q))"
  using assms(1,2,3,8)
proof (induction "is" arbitrary: d)
  case Nil
  then show ?case by simp
next
  case (Cons i "is")
  let ?f = "\<lambda>p q k. fp_pow2 fp (fp_sub fp (rows x ! p ! k) (rows y ! q ! k))"
  have i: "i < n" using Cons.prems(4) by simp
  obtain d1 where c: "euclidean_numba1_j fp js [0..<m] x y i d = Inr d1"
    and w1: "wf_ndarray d1" and sh1: "shape0 d1 = n" "shape1 d1 = n"
    and e1: "\<forall>p < n. \<forall>q < n. rows d1 ! p ! q =
              (if p = i \<and> q \<in> set js then sum_in_order fp (?f i q) m else rows d ! p ! q)"
    using euclidean_numba1_j_result [OF Cons.prems(1,2,3) assms(4,5,6,7) i assms(9), of fp] by blast
  obtain d' where r: "euclidean_numba1_i fp is js [0..<m] x y d1 = Inr d'"
    and w: "wf_ndarray d'" and sh: "shape0 d' = n" "shape1 d' = n"
    and e: "\<forall>p < n. \<forall>q < n. rows d' ! p ! q =
              (if p \<in> set is \<and> q \<in> set js then sum_in_order fp (?f p q) m
               else rows d1 ! p ! q)"
    using Cons.IH [of d1] w1 sh1 Cons.prems(4) by auto
  have "\<forall>p < n. \<forall>q < n. rows d' ! p ! q =
              (if p \<in> set (i # is) \<and> q \<in> set js then sum_in_order fp (?f p q) m
               else rows d ! p ! q)"
    using e e1 by auto
  then show ?case using c r w sh by simp
qed

lemma euclidean_numba1_result:
  assumes "shape0 x \<le> shape0 y" "shape1 x \<le> shape1 y"
  shows "\<exists>d. euclidean_numba1 fp x y = Inr d \<and> wf_ndarray d \<and>
           shape0 d = shape0 x \<and> shape1 d = shape0 x \<and>
           (\<forall>i < shape0 x. \<forall>j < shape0 x.
              rows d ! i ! j =
                sum_in_order fp
                  (\<lambda>k. fp_pow2 fp (fp_sub fp (rows x ! i ! k) (rows y ! j ! k))) (shape1 x))"
proof -
  let ?n = "shape0 x"
  let ?d0 = "np_zeros fp ?n ?n"
  have w: "wf_ndarray ?d0" "shape0 ?d0 = ?n" "shape1 ?d0 = ?n"
    by (simp_all add: np_zeros_def wf_ndarray_def list_all_length)
  have "\<forall>i \<in> set [0..<?n]. i < ?n" "\<forall>j \<in> set [0..<?n]. j < ?n"
    by simp_all
  from euclidean_numba1_i_result [OF w refl refl assms this, of fp]
  show ?thesis by (simp add: euclidean_numba1_def range_py_def Let_def)
qed

lemma cityblock_python_k_fold:
  assumes "i < shape0 x" "j < shape0 y" "\<forall>k \<in> set ks. k < shape1 x \<and> k < shape1 y"
  shows "cityblock_python_k fp ks x y i j r =
           Inr (foldl (\<lambda>r k. fp_add fp r (fp_abs fp (fp_sub fp (rows x ! i ! k) (rows y ! j ! k))))
                  r ks)"
  using assms(3)
proof (induction ks arbitrary: r)
  case Nil
  show ?case by simp
next
  case (Cons k ks)
  then show ?case using assms(1,2) by (simp add: get_checked_def)
qed

lemma cityblock_python_j_result:
  assumes "wf_ndarray d" "shape0 d = n" "shape1 d = n"
    and "shape0 x = n" "shape1 x = m" "n \<le> shape0 y" "m \<le> shape1 y"
    and "i < n" "\<forall>j \<in> set js. j < n"
  shows "\<exists>d'. cityblock_python_j fp js [0..<m] x y i d = Inr d' \<and>
           wf_ndarray d' \<and> shape0 d' = n \<and> shape1 d' = n \<and>
           (\<forall>p < n. \<forall>q < n. rows d' ! p ! q =
              (if p = i \<and> q \<in> set js
               then sum_in_order fp
                      (\<lambda>k. fp_abs fp (fp_sub fp (rows x ! i ! k) (rows y ! q ! k))) m
               else rows d ! p ! q))"
  using assms(1,2,3,9)
proof (induction js arbitrary: d)
  case Nil
  then show ?case by simp
next
  case (Cons j js)
  let ?f = "\<lambda>q k. fp_abs fp (fp_sub fp (rows x ! i ! k) (rows y ! q ! k))"
  let ?r = "sum_in_order fp (?f j) m"
  have j: "j < n" using Cons.prems(4) by simp
  have "cityblock_python_k fp [0..<m] x y i j (fp_zero fp) =
      Inr (foldl (\<lambda>r k. fp_add fp r (?f j k)) (fp_zero fp) [0..<m])"
    using assms(4,5,6,7,8) j by (intro cityblock_python_k_fold) auto
  then have k: "cityblock_python_k fp [0..<m] x y i j (fp_zero fp) = Inr ?r"
    by (simp add: sum_in_order_def)
  obtain d1 where s: "set_checked d i j ?r = Inr d1" and w1: "wf_ndarray d1"
    and sh1: "shape0 d1 = n" "shape1 d1 = n"
    and e1: "\<forall>p < n. \<forall>q < n.
               rows d1 ! p ! q = (if p = i \<and> q = j then ?r else rows d ! p ! q)"
    using set_checked_in_range [of d i j ?r] Cons.prems(1,2,3) assms(8) j by auto
  have step: "cityblock_python_j fp (j # js) [0..<m] x y i d = cityblock_python_j fp js [0..<m] x y i d1"
    using k s by simp
  obtain d' where r: "cityblock_python_j fp js [0..<m] x y i d1 = Inr d'"
    and w: "wf_ndarray d'" and sh: "shape0 d' = n" "shape1 d' = n"
    and e: "\<forall>p < n. \<forall>q < n. rows d' ! p ! q =
              (if p = i \<and> q \<in> set js then sum_in_order fp (?f q) m else rows d1 ! p ! q)"
    using Cons.IH [of d1] w1 sh1 Cons.prems(4) by auto
  have "\<forall>p < n. \<forall>q < n. rows d' ! p ! q =
              (if p = i \<and> q \<in> set (j # js) then sum_in_order fp (?f q) m
               else rows d ! p ! q)"
    using e e1 by auto
  then show ?case using step r w sh by simp
qed

lemma cityblock_python_i_result:
  assumes "wf_ndarray d" "shape0 d = n" "shape1 d = n"
    and "shape0 x = n" "shape1 x = m" "n \<le> shape0 y" "m \<le> shape1 y"
    and "\<forall>i \<in> set is. i < n" "\<forall>j \<in> set js. j < n"
  shows "\<exists>d'. cityblock_python_i fp is js [0..<m] x y d = Inr d' \<and>
           wf_ndarray d' \<and> shape0 d' = n \<and> shape1 d' = n \<and>
           (\<forall>p < n. \<forall>q < n. rows d' ! p ! q =
              (if p \<in> set is \<and> q \<in> set js
               then sum_in_order fp
                      (\<lambda>k. fp_abs fp (fp_sub fp (rows x ! p ! k) (rows y ! q ! k))) m
               else rows d ! p ! q))"
  using assms(1,2,3,8)
proof (induction "is" arbitrary: d)
  case Nil
  then show ?case by simp
next
  case (Cons i "is")
  let ?f = "\<lambda>p q k. fp_abs fp (fp_sub fp (rows x ! p ! k) (rows y ! q ! k))"
  have i: "i < n" using Cons.prems(4) by simp
  obtain d1 where c: "cityblock_python_j fp js [0..<m] x y i d = Inr d1"
    and w1: "wf_ndarray d1" and sh1: "shape0 d1 = n" "shape1 d1 = n"
    and e1: "\<forall>p < n. \<forall>q < n. rows d1 ! p ! q =
              (if p = i \<and> q \<in> set js then sum_in_order fp (?f i q) m else rows d ! p ! q)"
    using cityblock_python_j_result [OF Cons.prems(1,2,3) assms(4,5,6,7) i assms(9), of fp] by blast
  obtain d' where r: "cityblock_python_i fp is js [0..<m] x y d1 = Inr d'"
    and w: "wf_ndarray d'" and sh: "shape0 d' = n" "shape1 d' = n"
    and e: "\<forall>p < n. \<forall>q < n. rows d' ! p ! q =
              (if p \<in> set is \<and> q \<in> set js then sum_in_order fp (?f p q) m
               else rows d1 ! p ! q)"
    using Cons.IH [of d1] w1 sh1 Cons.prems(4) by auto
  have "\<forall>p < n. \<forall>q < n. rows d' ! p ! q =
              (if p \<in> set (i # is) \<and> q \<in> set js then sum_in_order fp (?f p q) m
               else rows d ! p ! q)"
    using e e1 by auto
  then show ?case using c r w sh by simp
qed

lemma cityblock_python_result:
  assumes "shape0 x \<le> shape0 y" "shape1 x \<le> shape1 y"
  shows "\<exists>d. cityblock_python fp junk x y = Inr d \<and> wf_ndarray d \<and>
           shape0 d = shape0 x \<and> shape1 d = shape0 x \<and>
           (\<forall>i < shape0 x. \<forall>j < shape0 x.
              rows d ! i ! j =
                sum_in_order fp
                  (\<lambda>k. fp_abs fp (fp_sub fp (rows x ! i ! k) (rows y ! j ! k))) (shape1 x))"
proof -
  let ?n = "shape0 x"
  let ?d0 = "np_empty ?n ?n junk"
  have w: "wf_ndarray ?d0" "shape0 ?d0 = ?n" "shape1 ?d0 = ?n"
    by (simp_all add: np_empty_def wf_ndarray_def list_all_length)
  have "\<forall>i \<in> set [0..<?n]. i < ?n" "\<forall>j \<in> set [0..<?n]. j < ?n"
    by simp_all
  from cityblock_python_i_result [OF w refl refl assms this, of fp]
  show ?thesis by (simp add: cityblock_python_def range_py_def Let_def)
qed

lemma cityblock_numba1_k_fold:
  assumes "i < shape0 x" "j < shape0 y" "\<forall>k \<in> set ks. k < shape1 x \<and> k < shape1 y"
  shows "cityblock_numba1_k fp ks x y i j r =
           Inr (foldl (\<lambda>r k. fp_add fp r (fp_abs fp (fp_sub fp (rows x ! i ! k) (rows y ! j ! k))))
                  r ks)"
  using assms(3)
proof (induction ks arbitrary: r)
  case Nil
  show ?case by simp
next
  case (Cons k ks)
  then show ?case using assms(1,2) by (simp add: get_unchecked_def)
qed

lemma cityblock_numba1_j_result:
  assumes "wf_ndarray d" "shape0 d = n" "shape1 d = n"
    and "shape0 x = n" "shape1 x = m" "n \<le> shape0 y" "m \<le> shape1 y"
    and "i < n" "\<forall>j \<in> set js. j < n"
  shows "\<exists>d'. cityblock_numba1_j fp js [0..<m] x y i d = Inr d' \<and>
           wf_ndarray d' \<and> shape0 d' = n \<and> shape1 d' = n \<and>
           (\<forall>p < n. \<forall>q < n. rows d' ! p ! q =
              (if p = i \<and> q \<in> set js
               then sum_in_order fp
                      (\<lambda>k. fp_abs fp (fp_sub fp (rows x ! i ! k) (rows y ! q ! k))) m
               else rows d ! p ! q))"
  using assms(1,2,3,9)
proof (induction js arbitrary: d)
  case Nil
  then show ?case by simp
next
  case (Cons j js)
  let ?f = "\<lambda>q k. fp_abs fp (fp_sub fp (rows x ! i ! k) (rows y ! q ! k))"
  let ?r = "sum_in_order fp (?f j) m"
  have j: "j < n" using Cons.prems(4) by simp
  have "cityblock_numba1_k fp [0..<m] x y i j (fp_zero fp) =
      Inr (foldl (\<lambda>r k. fp_add fp r (?f j k)) (fp_zero fp) [0..<m])"
    using assms(4,5,6,7,8) j by (intro cityblock_numba1_k_fold) auto
  then have k: "cityblock_numba1_k fp [0..<m] x y i j (fp_zero fp) = Inr ?r"
    by (simp add: sum_in_order_def)
  obtain d1 where s: "set_unchecked d i j ?r = Inr d1" and w1: "wf_ndarray d1"
    and sh1: "shape0 d1 = n" "shape1 d1 = n"
    and e1: "\<forall>p < n. \<forall>q < n.
               rows d1 ! p ! q = (if p = i \<and> q = j then ?r else rows d ! p ! q)"
    using set_unchecked_in_range [of d i j ?r] Cons.prems(1,2,3) assms(8) j by auto
  have step: "cityblock_numba1_j fp (j # js) [0..<m] x y i d = cityblock_numba1_j fp js [0..<m] x y i d1"
    using k s by simp
  obtain d' where r: "cityblock_numba1_j fp js [0..<m] x y i d1 = Inr d'"
    and w: "wf_ndarray d'" and sh: "shape0 d' = n" "shape1 d' = n"
    and e: "\<forall>p < n. \<forall>q < n. rows d' ! p ! q =
              (if p = i \<and> q \<in> set js then sum_in_order fp (?f q) m else rows d1 ! p ! q)"
    using Cons.IH [of d1] w1 sh1 Cons.prems(4) by auto
  have "\<forall>p < n. \<forall>q < n. rows d' ! p ! q =
              (if p = i \<and> q \<in> set (j # js) then sum_in_order fp (?f q) m
               else rows d ! p ! q)"
    using e e1 by auto
  then show ?case using step r w sh by simp
qed

lemma cityblock_numba1_i_result:
  assumes "wf_ndarray d" "shape0 d = n" "shape1 d = n"
    and "shape0 x = n" "shape1 x = m" "n \<le> shape0 y" "m \<le> shape1 y"
    and "\<forall>i \<in> set is. i < n" "\<forall>j \<in> set js. j < n"
  shows "\<exists>d'. cityblock_numba1_i fp is js [0..<m] x y d = Inr d' \<and>
           wf_ndarray d' \<and> shape0 d' = n \<and> shape1 d' = n \<and>
           (\<forall>p < n. \<forall>q < n. rows d' ! p ! q =
              (if p \<in> set is \<and> q \<in> set js
               then sum_in_order fp
                      (\<lambda>k. fp_abs fp (fp_sub fp (rows x ! p ! k) (rows y ! q ! k))) m
               else rows d ! p ! q))"
  using assms(1,2,3,8)
proof (induction "is" arbitrary: d)
  case Nil
  then show ?case by simp
next
  case (Cons i "is")
  let ?f = "\<lambda>p q k. fp_abs fp (fp_sub fp (rows x ! p ! k) (rows y ! q ! k))"
  have i: "i < n" using Cons.prems(4) by simp
  obtain d1 where c: "cityblock_numba1_j fp js [0..<m] x y i d = Inr d1"
    and w1: "wf_ndarray d1" and sh1: "shape0 d1 = n" "shape1 d1 = n"
    and e1: "\<forall>p < n. \<forall>q < n. rows d1 ! p ! q =
              (if p = i \<and> q \<in> set js then sum_in_order fp (?f i q) m else rows d ! p ! q)"
    using cityblock_numba1_j_result [OF Cons.prems(1,2,3) assms(4,5,6,7) i assms(9), of fp] by blast
  obtain d' where r: "cityblock_numba1_i fp is js [0..<m] x y d1 = Inr d'"
    and w: "wf_ndarray d'" and sh: "shape0 d' = n" "shape1 d' = n"
    and e: "\<forall>p < n. \<forall>q < n. rows d' ! p ! q =
              (if p \<in> set is \<and> q \<in> set js then sum_in_order fp (?f p q) m
               else rows d1 ! p ! q)"
    using Cons.IH [of d1] w1 sh1 Cons.prems(4) by auto
  have "\<forall>p < n. \<forall>q < n. rows d' ! p ! q =
              (if p \<in> set (i # is) \<and> q \<in> set js then sum_in_order fp (?f p q) m
               else rows d ! p ! q)"
    using e e1 by auto
  then show ?case using c r w sh by simp
qed

lemma cityblock_numba1_result:
  assumes "shape0 x \<le> shape0 y" "shape1 x \<le> shape1 y"
  shows "\<exists>d. cityblock_numba1 fp junk x y = Inr d \<and> wf_ndarray d \<and>
           shape0 d = shape0 x \<and> shape1 d = shape0 x \<and>
           (\<forall>i < shape0 x. \<forall>j < shape0 x.
              rows d ! i ! j =
                sum_in_order fp
                  (\<lambda>k. fp_abs fp (fp_sub fp (rows x ! i ! k) (rows y ! j ! k))) (shape1 x))"
proof -
  let ?n = "shape0 x"
  let ?d0 = "np_empty ?n ?n junk"
  have w: "wf_ndarray ?d0" "shape0 ?d0 = ?n" "shape1 ?d0 = ?n"
    by (simp_all add: np_empty_def wf_ndarray_def list_all_length)
  have "\<forall>i \<in> set [0..<?n]. i < ?n" "\<forall>j \<in> set [0..<?n]. j < ?n"
    by simp_all
  from cityblock_numba1_i_result [OF w refl refl assms this, of fp]
  show ?thesis by (simp add: cityblock_numba1_def range_py_def Let_def)
qed

subsection \<open>The NumPy baseline\<close>

lemma sum_list_map2_nth:
  assumes "length r = m" "length s = m"
  shows "sum_list (map2 f r s) = (\<Sum>k<m. f (r ! k) (s ! k))"
proof -
  have "sum_list (map2 f r s) = (\<Sum>k = 0..<length (map2 f r s). map2 f r s ! k)"
    by (rule sum_list_sum_nth)
  also have "\<dots> = (\<Sum>k = 0..<m. f (r ! k) (s ! k))"
    using assms by (intro sum.cong) simp_all
  finally show ?thesis by (simp add: atLeast0LessThan)
qed

lemma einsum_ij_ij_i_nth:
  assumes "wf_ndarray a" "i < shape0 a"
  shows "einsum_ij_ij_i a a ! i = (\<Sum>k < shape1 a. rows a ! i ! k * rows a ! i ! k)"
proof -
  have len: "length (rows a) = shape0 a" using assms(1) by (simp add: wf_ndarray_def)
  have row: "length (rows a ! i) = shape1 a" using assms by (rule wf_ndarray_row)
  have "einsum_ij_ij_i a a ! i = sum_list (map2 (*) (rows a ! i) (rows a ! i))"
    using len assms(2) by (simp add: einsum_ij_ij_i_def)
  then show ?thesis using row by (simp add: sum_list_map2_nth)
qed

lemma sum_sq_diff:
  fixes f g :: "nat \<Rightarrow> real"
  shows "\<bar>(\<Sum>k<m. f k * f k) + (\<Sum>k<m. g k * g k) - 2 * (\<Sum>k<m. f k * g k)\<bar> =
         (\<Sum>k<m. (f k - g k) ^ 2)"
proof -
  have "(\<Sum>k<m. (f k - g k) ^ 2) = (\<Sum>k<m. f k * f k + g k * g k - 2 * (f k * g k))"
    by (intro sum.cong) (simp_all add: power2_eq_square algebra_simps)
  also have "\<dots> = (\<Sum>k<m. f k * f k) + (\<Sum>k<m. g k * g k) - 2 * (\<Sum>k<m. f k * g k)"
    by (simp add: sum.distrib sum_subtractf sum_distrib_left)
  finally have eq: "(\<Sum>k<m. f k * f k) + (\<Sum>k<m. g k * g k) - 2 * (\<Sum>k<m. f k * g k) =
      (\<Sum>k<m. (f k - g k) ^ 2)" by simp
  have "0 \<le> (\<Sum>k<m. (f k - g k) ^ 2)" by (intro sum_nonneg) simp
  then show ?thesis using eq by simp
qed

lemma euclidean_numpy_result:
  assumes "wf_ndarray x" "wf_ndarray y" "shape1 y = shape1 x"
  shows "\<exists>d. euclidean_numpy x y = Inr d \<and> wf_ndarray d \<and>
           shape0 d = shape0 x \<and> shape1 d = shape0 y \<and>
           (\<forall>i < shape0 x. \<forall>j < shape0 y.
              rows d ! i ! j = (\<Sum>k<(shape1 x). (rows x ! i ! k - rows y ! j ! k) ^ 2))"
proof -
  let ?m = "shape1 x"
  let ?yT = "transpose_nd y"
  let ?xy = "\<lparr>shape0 = shape0 x, shape1 = shape1 ?yT,
      rows = map (\<lambda>r. map (\<lambda>j. (\<Sum>k < shape1 x. r ! k * rows ?yT ! k ! j)) [0..<shape1 ?yT])
               (rows x)\<rparr>"
  let ?x2 = "einsum_ij_ij_i x x"
  let ?y2 = "einsum_ij_ij_i y y"
  let ?d = "\<lparr>shape0 = shape0 x, shape1 = shape0 y,
      rows = map (\<lambda>i. map (\<lambda>j. \<bar>?x2 ! i + ?y2 ! j - 2 * rows ?xy ! i ! j\<bar>) [0..<shape0 y])
               [0..<shape0 x]\<rparr>"
  have lx: "length (rows x) = shape0 x" and ly: "length (rows y) = shape0 y"
    using assms(1,2) by (simp_all add: wf_ndarray_def)
  have dot: "np_dot x ?yT = Inr ?xy"
    using assms(3) by (simp add: np_dot_def transpose_nd_def)
  have run: "euclidean_numpy x y = Inr ?d"
    by (simp add: euclidean_numpy_def dot Let_def)
  have wf: "wf_ndarray ?d"
    by (simp add: wf_ndarray_def list_all_length)
  have "rows ?d ! i ! j = (\<Sum>k<?m. (rows x ! i ! k - rows y ! j ! k) ^ 2)"
    if i: "i < shape0 x" and j: "j < shape0 y" for i j
  proof -
    have yT: "rows ?yT ! k ! j = rows y ! j ! k" if "k < ?m" for k
      using that j ly assms(3) by (simp add: transpose_nd_def)
    have "rows ?xy ! i ! j = (\<Sum>k<?m. rows x ! i ! k * rows ?yT ! k ! j)"
      using i j lx by (simp add: transpose_nd_def)
    also have "\<dots> = (\<Sum>k<?m. rows x ! i ! k * rows y ! j ! k)"
      by (intro sum.cong) (simp_all add: yT)
    finally have xy: "rows ?xy ! i ! j = (\<Sum>k<?m. rows x ! i ! k * rows y ! j ! k)" .
    have x2: "?x2 ! i = (\<Sum>k<?m. rows x ! i ! k * rows x ! i ! k)"
      using assms(1) i by (rule einsum_ij_ij_i_nth)
    have y2: "?y2 ! j = (\<Sum>k<?m. rows y ! j ! k * rows y ! j ! k)"
      using einsum_ij_ij_i_nth [OF assms(2) j] assms(3) by simp
    have "rows ?d ! i ! j = \<bar>?x2 ! i + ?y2 ! j - 2 * rows ?xy ! i ! j\<bar>"
      using i j by simp
    also have "\<dots> = (\<Sum>k<?m. (rows x ! i ! k - rows y ! j ! k) ^ 2)"
      unfolding xy x2 y2 by (rule sum_sq_diff)
    finally show ?thesis .
  qed
  then show ?thesis using run wf by auto
qed

subsection \<open>Claims about the distance kernels\<close>

lemma sum_in_order_exact: "sum_in_order exact f m = (\<Sum>k<m. f k)"
  by (induction m) (simp_all add: sum_in_order_def exact_def)

lemma exact_ops:
  "fp_pow2 exact (fp_sub exact a b) = (a - b) ^ 2"
  "fp_abs exact (fp_sub exact a b) = \<bar>a - b\<bar>"
  by (simp_all add: exact_def)

lemma sample_arrays_wf:
  "wf_ndarray sample_x" "wf_ndarray sample_y"
  "shape0 sample_y = shape0 sample_x" "shape1 sample_y = shape1 sample_x"
  by (simp_all add: wf_ndarray_def sample_x_def sample_y_def)

lemma tall_y_wf:
  "wf_ndarray tall_y" "shape0 sample_x \<le> shape0 tall_y" "shape1 sample_x \<le> shape1 tall_y"
  by (simp_all add: wf_ndarray_def tall_y_def sample_x_def)

text \<open>
  C1. For \<open>x\<close> and \<open>y\<close> of the same shape \<open>(N, m)\<close>, in exact arithmetic,
  \<open>euclidean_numba1\<close> returns the matrix \<open>euclidean_numpy\<close> returns, and
  \<open>cityblock_numba1\<close> the matrix \<open>cityblock_python\<close> returns, whatever \<open>np.empty\<close> left
  in the two output buffers.
\<close>

theorem optimized_matches_baseline:
  assumes "wf_ndarray x" "wf_ndarray y" "shape0 y = shape0 x" "shape1 y = shape1 x"
  shows "(\<exists>d. euclidean_numba1 exact x y = Inr d \<and> euclidean_numpy x y = Inr d) \<and>
         (\<exists>d. cityblock_numba1 exact junk x y = Inr d \<and>
            cityblock_python exact junk' x y = Inr d)"
proof -
  have le: "shape0 x \<le> shape0 y" "shape1 x \<le> shape1 y" using assms(3,4) by simp_all
  obtain a where a: "euclidean_numba1 exact x y = Inr a" "wf_ndarray a"
    "shape0 a = shape0 x" "shape1 a = shape0 x"
    "\<forall>i < shape0 x. \<forall>j < shape0 x.
       rows a ! i ! j = (\<Sum>k<(shape1 x). (rows x ! i ! k - rows y ! j ! k) ^ 2)"
    using euclidean_numba1_result [OF le, of exact]
    by (auto simp: sum_in_order_exact exact_ops)
  obtain b where b: "euclidean_numpy x y = Inr b" "wf_ndarray b"
    "shape0 b = shape0 x" "shape1 b = shape0 y"
    "\<forall>i < shape0 x. \<forall>j < shape0 y.
       rows b ! i ! j = (\<Sum>k<(shape1 x). (rows x ! i ! k - rows y ! j ! k) ^ 2)"
    using euclidean_numpy_result [OF assms(1,2,4)] by blast
  have "a = b"
    using a(2-5) b(2-5) assms(3) by (intro ndarray_eqI) simp_all
  then have euclid: "\<exists>d. euclidean_numba1 exact x y = Inr d \<and> euclidean_numpy x y = Inr d"
    using a(1) b(1) by simp
  obtain c where c: "cityblock_numba1 exact junk x y = Inr c" "wf_ndarray c"
    "shape0 c = shape0 x" "shape1 c = shape0 x"
    "\<forall>i < shape0 x. \<forall>j < shape0 x.
       rows c ! i ! j = (\<Sum>k<(shape1 x). \<bar>rows x ! i ! k - rows y ! j ! k\<bar>)"
    using cityblock_numba1_result [OF le, of exact junk]
    by (auto simp: sum_in_order_exact exact_ops)
  obtain d where d: "cityblock_python exact junk' x y = Inr d" "wf_ndarray d"
    "shape0 d = shape0 x" "shape1 d = shape0 x"
    "\<forall>i < shape0 x. \<forall>j < shape0 x.
       rows d ! i ! j = (\<Sum>k<(shape1 x). \<bar>rows x ! i ! k - rows y ! j ! k\<bar>)"
    using cityblock_python_result [OF le, of exact junk']
    by (auto simp: sum_in_order_exact exact_ops)
  have "c = d"
    using c(2-5) d(2-5) by (intro ndarray_eqI) simp_all
  then show ?thesis using euclid c(1) d(1) by simp
qed

theorem optimized_matches_baseline_witness:
  "wf_ndarray sample_x \<and> wf_ndarray sample_y \<and>
   euclidean_numba1 exact sample_x sample_y =
     Inr \<lparr>shape0 = 2, shape1 = 2, rows = [[1, 1 / 4], [8, 45 / 4]]\<rparr> \<and>
   (\<exists>d. euclidean_numba1 exact sample_x sample_y = Inr d \<and>
      euclidean_numpy sample_x sample_y = Inr d) \<and>
   (\<exists>d. cityblock_numba1 exact junk_a sample_x sample_y = Inr d \<and>
      cityblock_python exact junk_b sample_x sample_y = Inr d)"
proof -
  have "euclidean_numba1 exact sample_x sample_y =
      Inr \<lparr>shape0 = 2, shape1 = 2, rows = [[1, 1 / 4], [8, 45 / 4]]\<rparr>"
    by (simp add: euclidean_numba1_def range_py_def np_zeros_def sample_x_def sample_y_def
        get_unchecked_def set_unchecked_def upt_rec power2_eq_square Let_def
        numeral_2_eq_2 exact_def)
  then show ?thesis
    using optimized_matches_baseline [OF sample_arrays_wf, of junk_a junk_b]
      sample_arrays_wf(1,2)
    by simp
qed

text \<open>
  C3. The entries \<open>y[j][k]\<close> the claim names exist when \<open>y\<close> has at least the \<open>N\<close>
  rows and the \<open>m\<close> columns of \<open>x\<close>, as it has in the notebooks, where both arrays
  have the shape \<open>(N, m)\<close>. Then for all \<open>i, j < N\<close> the entry \<open>[i][j]\<close> of
  \<open>euclidean_numba1(x, y)\<close> is the sum over \<open>k < m\<close> of \<open>(x[i][k] - y[j][k])**2\<close>
  and that of \<open>cityblock_numba1(x, y)\<close> the sum over \<open>k < m\<close> of
  \<open>|x[i][k] - y[j][k]|\<close>. In the arithmetic of the doubles the sum is the one the loop
  builds, from \<open>0.0\<close> in the order of \<open>k\<close>; in exact arithmetic it is the sum
  of the real numbers (third conjunct).
\<close>

theorem distance_entries:
  assumes "wf_ndarray x" "wf_ndarray y" "shape0 x \<le> shape0 y" "shape1 x \<le> shape1 y"
  shows "(\<exists>d. euclidean_numba1 fp x y = Inr d \<and> shape0 d = shape0 x \<and> shape1 d = shape0 x \<and>
            (\<forall>i < shape0 x. \<forall>j < shape0 x.
               rows d ! i ! j =
                 sum_in_order fp
                   (\<lambda>k. fp_pow2 fp (fp_sub fp (rows x ! i ! k) (rows y ! j ! k))) (shape1 x))) \<and>
         (\<exists>d. cityblock_numba1 fp junk x y = Inr d \<and> shape0 d = shape0 x \<and>
            shape1 d = shape0 x \<and>
            (\<forall>i < shape0 x. \<forall>j < shape0 x.
               rows d ! i ! j =
                 sum_in_order fp
                   (\<lambda>k. fp_abs fp (fp_sub fp (rows x ! i ! k) (rows y ! j ! k))) (shape1 x))) \<and>
         sum_in_order exact f m = (\<Sum>k<m. f k)"
  using euclidean_numba1_result [OF assms(3,4), of fp]
    cityblock_numba1_result [OF assms(3,4), of fp junk] sum_in_order_exact [of f m]
  by blast

theorem distance_entries_witness:
  "wf_ndarray sample_x \<and> wf_ndarray tall_y \<and>
   shape0 sample_x \<le> shape0 tall_y \<and> shape1 sample_x \<le> shape1 tall_y \<and>
   euclidean_numba1 exact sample_x tall_y =
     Inr \<lparr>shape0 = 2, shape1 = 2, rows = [[1, 1 / 4], [8, 45 / 4]]\<rparr> \<and>
   cityblock_numba1 exact junk_a sample_x tall_y =
     Inr \<lparr>shape0 = 2, shape1 = 2, rows = [[1, 1 / 2], [4, 9 / 2]]\<rparr> \<and>
   sum_in_order exact (\<lambda>k. (rows sample_x ! 1 ! k - rows tall_y ! 1 ! k) ^ 2) 2 = 45 / 4 \<and>
   sum_in_order exact (\<lambda>k. \<bar>rows sample_x ! 1 ! k - rows tall_y ! 1 ! k\<bar>) 2 = 9 / 2"
proof -
  obtain d e where d: "euclidean_numba1 exact sample_x tall_y = Inr d"
    "\<forall>i < shape0 sample_x. \<forall>j < shape0 sample_x.
       rows d ! i ! j =
         sum_in_order exact
           (\<lambda>k. fp_pow2 exact (fp_sub exact (rows sample_x ! i ! k) (rows tall_y ! j ! k)))
           (shape1 sample_x)"
    and e: "cityblock_numba1 exact junk_a sample_x tall_y = Inr e"
    "\<forall>i < shape0 sample_x. \<forall>j < shape0 sample_x.
       rows e ! i ! j =
         sum_in_order exact
           (\<lambda>k. fp_abs exact (fp_sub exact (rows sample_x ! i ! k) (rows tall_y ! j ! k)))
           (shape1 sample_x)"
    using distance_entries [OF sample_arrays_wf(1) tall_y_wf, of exact junk_a] by blast
  have run_d: "euclidean_numba1 exact sample_x tall_y =
      Inr \<lparr>shape0 = 2, shape1 = 2, rows = [[1, 1 / 4], [8, 45 / 4]]\<rparr>"
    by (simp add: euclidean_numba1_def range_py_def np_zeros_def sample_x_def tall_y_def
        get_unchecked_def set_unchecked_def upt_rec power2_eq_square Let_def
        numeral_2_eq_2 exact_def)
  have run_e: "cityblock_numba1 exact junk_a sample_x tall_y =
      Inr \<lparr>shape0 = 2, shape1 = 2, rows = [[1, 1 / 2], [4, 9 / 2]]\<rparr>"
    by (simp add: cityblock_numba1_def range_py_def np_empty_def sample_x_def tall_y_def
        junk_a_def get_unchecked_def set_unchecked_def upt_rec Let_def numeral_2_eq_2
        exact_def)
  have s: "shape0 sample_x = 2" "shape1 sample_x = 2" by (simp_all add: sample_x_def)
  have "rows d ! 1 ! 1 = 45 / 4" "rows e ! 1 ! 1 = 9 / 2"
    using d(1) e(1) run_d run_e by auto
  moreover have "rows d ! 1 ! 1 =
      sum_in_order exact (\<lambda>k. (rows sample_x ! 1 ! k - rows tall_y ! 1 ! k) ^ 2) 2"
    "rows e ! 1 ! 1 =
      sum_in_order exact (\<lambda>k. \<bar>rows sample_x ! 1 ! k - rows tall_y ! 1 ! k\<bar>) 2"
    using d(2) e(2) s by (simp_all add: exact_ops)
  ultimately show ?thesis
    using run_d run_e sample_arrays_wf(1) tall_y_wf by simp
qed

section \<open>Properties of the Julia set kernel\<close>

lemma julia_while_value:
  "julia_while fp (fst p) (snd p) cx cy iter_max radius2 k =
     Some (if \<exists>m. k + int m < iter_max \<and> \<not> in_radius fp radius2 (iterate fp cx cy p m)
           then k + int (LEAST m. \<not> in_radius fp radius2 (iterate fp cx cy p m))
           else max k iter_max)"
proof (induction "nat (iter_max - k)" arbitrary: p k)
  case 0
  then have "\<not> k < iter_max" by simp
  then show ?case
    by (subst julia_while.simps) simp
next
  case (Suc n)
  then have lt: "k < iter_max" by simp
  let ?E = "\<lambda>q m. \<not> in_radius fp radius2 (iterate fp cx cy q m)"
  show ?case
  proof (cases "\<not> in_radius fp radius2 p")
    case True
    then have e0: "?E p 0" by (simp add: iterate_def)
    then have "(LEAST m. ?E p m) = 0" by (simp add: Least_eq_0)
    moreover have "\<exists>m. k + int m < iter_max \<and> ?E p m"
      using e0 lt by (intro exI [of _ 0]) simp
    ultimately show ?thesis using True
      by (subst julia_while.simps) (simp add: in_radius_def norm2_def)
  next
    case False
    let ?p' = "julia_step fp cx cy p"
    have shift: "?E ?p' m = ?E p (Suc m)" for m
      by (simp add: iterate_def funpow_swap1)
    have n0: "\<not> ?E p 0" using False by (simp add: iterate_def)
    have ex: "(\<exists>m. k + 1 + int m < iter_max \<and> ?E ?p' m) = (\<exists>m. k + int m < iter_max \<and> ?E p m)"
    proof
      assume "\<exists>m. k + 1 + int m < iter_max \<and> ?E ?p' m"
      then obtain m where "k + 1 + int m < iter_max" "?E p (Suc m)" using shift by blast
      then show "\<exists>m. k + int m < iter_max \<and> ?E p m"
        by (intro exI [of _ "Suc m"]) simp
    next
      assume "\<exists>m. k + int m < iter_max \<and> ?E p m"
      then obtain m where m: "k + int m < iter_max" "?E p m" by blast
      then have "m \<noteq> 0" using n0 by (cases m) auto
      then obtain m' where "m = Suc m'" by (cases m) auto
      then show "\<exists>m. k + 1 + int m < iter_max \<and> ?E ?p' m"
        using m shift by (intro exI [of _ m']) simp
    qed
    have least: "(LEAST m. ?E p m) = Suc (LEAST m. ?E ?p' m)" if "?E p m" for m
      using Least_Suc [of "?E p" m, OF that n0] shift by simp
    have "n = nat (iter_max - (k + 1))" using Suc.hyps(2) by simp
    then have ih: "julia_while fp (fst ?p') (snd ?p') cx cy iter_max radius2 (k + 1) =
        Some (if \<exists>m. k + 1 + int m < iter_max \<and> ?E ?p' m
              then k + 1 + int (LEAST m. ?E ?p' m) else max (k + 1) iter_max)"
      by (rule Suc.hyps(1))
    have "julia_while fp (fst p) (snd p) cx cy iter_max radius2 k =
        julia_while fp (fst ?p') (snd ?p') cx cy iter_max radius2 (k + 1)"
      using False lt
      by (subst julia_while.simps) (simp add: in_radius_def norm2_def julia_step_def)
    also have "\<dots> = Some (if \<exists>m. k + int m < iter_max \<and> ?E p m
           then k + int (LEAST m. ?E p m) else max k iter_max)"
    proof (cases "\<exists>m. k + int m < iter_max \<and> ?E p m")
      case True
      then obtain m where "?E p m" by blast
      then have "(LEAST m. ?E p m) = Suc (LEAST m. ?E ?p' m)" by (rule least)
      moreover have "\<exists>m. k + 1 + int m < iter_max \<and> ?E ?p' m" using ex True by simp
      ultimately show ?thesis using ih True by simp
    next
      case False
      then have none: "\<not> (\<exists>m. k + 1 + int m < iter_max \<and> ?E ?p' m)"
        using ex by blast
      have "max (k + 1) iter_max = max k iter_max" using lt by simp
      then show ?thesis
        by (simp only: ih if_not_P [OF none] if_not_P [OF False])
    qed
    finally show ?thesis .
  qed
qed

lemma julia_while_count:
  "julia_while fp x y cx cy iter_max radius2 0 = Some (escape_count fp cx cy iter_max radius2 (x, y))"
  using julia_while_value [of fp "(x, y)" cx cy iter_max radius2 0]
  by (auto simp: escape_count_def)


lemma julia_while_returns:
  "\<exists>k'. julia_while fp x y cx cy iter_max radius2 k = Some k'"
  using julia_while_value [of fp "(x, y)" cx cy iter_max radius2 k] by simp

lemma julia_cols_result:
  assumes "wf_ndarray X" "wf_ndarray Y" "wf_ndarray J"
    and "shape0 Y = shape0 X" "shape1 Y = shape1 X"
    and "shape0 J = shape0 X" "shape1 J = shape1 X"
    and "i < shape0 X" "\<forall>j \<in> set js. j < shape1 X"
  shows "\<exists>J'. julia_cols fp js X Y cx cy iter_max radius2 i J = Some (Inr J') \<and>
           wf_ndarray J' \<and> shape0 J' = shape0 X \<and> shape1 J' = shape1 X \<and>
           (\<forall>p < shape0 X. \<forall>q < shape1 X. rows J' ! p ! q =
              (if p = i \<and> q \<in> set js
               then escape_count fp cx cy iter_max radius2 (rows X ! i ! q, rows Y ! i ! q)
               else rows J ! p ! q))"
  using assms(3,6,7,9)
proof (induction js arbitrary: J)
  case Nil
  then show ?case by simp
next
  case (Cons j js)
  let ?k = "escape_count fp cx cy iter_max radius2 (rows X ! i ! j, rows Y ! i ! j)"
  have j: "j < shape1 X" using Cons.prems(4) by simp
  obtain J1 where s: "set_unchecked J i j ?k = Inr J1" and w1: "wf_ndarray J1"
    and sh1: "shape0 J1 = shape0 X" "shape1 J1 = shape1 X"
    and e1: "\<forall>p < shape0 X. \<forall>q < shape1 X.
               rows J1 ! p ! q = (if p = i \<and> q = j then ?k else rows J ! p ! q)"
    using set_unchecked_in_range [of J i j ?k] Cons.prems(1,2,3) assms(8) j by auto
  have step: "julia_cols fp (j # js) X Y cx cy iter_max radius2 i J =
      julia_cols fp js X Y cx cy iter_max radius2 i J1"
    using assms(4,5,8) j s by (simp add: get_unchecked_def julia_while_count)
  obtain J' where r: "julia_cols fp js X Y cx cy iter_max radius2 i J1 = Some (Inr J')"
    and w: "wf_ndarray J'" and sh: "shape0 J' = shape0 X" "shape1 J' = shape1 X"
    and e: "\<forall>p < shape0 X. \<forall>q < shape1 X. rows J' ! p ! q =
              (if p = i \<and> q \<in> set js
               then escape_count fp cx cy iter_max radius2 (rows X ! i ! q, rows Y ! i ! q)
               else rows J1 ! p ! q)"
    using Cons.IH [of J1] w1 sh1 Cons.prems(4) by auto
  have "\<forall>p < shape0 X. \<forall>q < shape1 X. rows J' ! p ! q =
              (if p = i \<and> q \<in> set (j # js)
               then escape_count fp cx cy iter_max radius2 (rows X ! i ! q, rows Y ! i ! q)
               else rows J ! p ! q)"
    using e e1 by auto
  then show ?case using step r w sh by simp
qed

lemma julia_rows_result:
  assumes "wf_ndarray X" "wf_ndarray Y" "wf_ndarray J"
    and "shape0 Y = shape0 X" "shape1 Y = shape1 X"
    and "shape0 J = shape0 X" "shape1 J = shape1 X"
    and "\<forall>i \<in> set is. i < shape0 X" "\<forall>j \<in> set js. j < shape1 X"
  shows "\<exists>J'. julia_rows fp is js X Y cx cy iter_max radius2 J = Some (Inr J') \<and>
           wf_ndarray J' \<and> shape0 J' = shape0 X \<and> shape1 J' = shape1 X \<and>
           (\<forall>p < shape0 X. \<forall>q < shape1 X. rows J' ! p ! q =
              (if p \<in> set is \<and> q \<in> set js
               then escape_count fp cx cy iter_max radius2 (rows X ! p ! q, rows Y ! p ! q)
               else rows J ! p ! q))"
  using assms(3,6,7,8)
proof (induction "is" arbitrary: J)
  case Nil
  then show ?case by simp
next
  case (Cons i "is")
  have i: "i < shape0 X" using Cons.prems(4) by simp
  obtain J1 where c: "julia_cols fp js X Y cx cy iter_max radius2 i J = Some (Inr J1)"
    and w1: "wf_ndarray J1" and sh1: "shape0 J1 = shape0 X" "shape1 J1 = shape1 X"
    and e1: "\<forall>p < shape0 X. \<forall>q < shape1 X. rows J1 ! p ! q =
              (if p = i \<and> q \<in> set js
               then escape_count fp cx cy iter_max radius2 (rows X ! i ! q, rows Y ! i ! q)
               else rows J ! p ! q)"
    using julia_cols_result [OF assms(1,2) Cons.prems(1) assms(4,5) Cons.prems(2,3) i assms(9)]
    by blast
  obtain J' where r: "julia_rows fp is js X Y cx cy iter_max radius2 J1 = Some (Inr J')"
    and w: "wf_ndarray J'" and sh: "shape0 J' = shape0 X" "shape1 J' = shape1 X"
    and e: "\<forall>p < shape0 X. \<forall>q < shape1 X. rows J' ! p ! q =
              (if p \<in> set is \<and> q \<in> set js
               then escape_count fp cx cy iter_max radius2 (rows X ! p ! q, rows Y ! p ! q)
               else rows J1 ! p ! q)"
    using Cons.IH [of J1] w1 sh1 Cons.prems(4) by auto
  have "\<forall>p < shape0 X. \<forall>q < shape1 X. rows J' ! p ! q =
              (if p \<in> set (i # is) \<and> q \<in> set js
               then escape_count fp cx cy iter_max radius2 (rows X ! p ! q, rows Y ! p ! q)
               else rows J ! p ! q)"
    using e e1 by auto
  then show ?case using c r w sh by simp
qed

lemma c_int_of_extent_small:
  assumes "n < 2 ^ 31"
  shows "c_int_of_extent n = int n"
proof -
  have "unat (word_of_nat n :: 32 word) = n"
    using assms by (simp add: unat_of_nat)
  then have u: "uint (word_of_nat n :: 32 word) = int n"
    by (simp only: uint_nat)
  then have "uint (word_of_nat n :: 32 word) < 2 ^ 31"
    using assms by simp
  then show ?thesis
    using u by (simp only: c_int_of_extent_def sint_32_cases if_True)
qed

lemma julia_set_cython_result:
  assumes "wf_ndarray X" "wf_ndarray Y" "wf_ndarray J"
    and "shape0 Y = shape0 X" "shape1 Y = shape1 X"
    and "shape0 J = shape0 X" "shape1 J = shape1 X"
    and "shape0 X < 2 ^ 31" "shape1 X < 2 ^ 31"
  shows "\<exists>J'. julia_set_cython fp X Y cx cy iter_max radius2 J = Some (Inr J') \<and>
           wf_ndarray J' \<and> shape0 J' = shape0 X \<and> shape1 J' = shape1 X \<and>
           (\<forall>i < shape0 X. \<forall>j < shape1 X. rows J' ! i ! j =
              escape_count fp cx cy iter_max radius2 (rows X ! i ! j, rows Y ! i ! j))"
proof -
  have "\<forall>i \<in> set [0..<shape0 X]. i < shape0 X" "\<forall>j \<in> set [0..<shape1 X]. j < shape1 X"
    by simp_all
  moreover have "c_int_of_extent (shape0 X) = int (shape0 X)"
    using assms(8) by (rule c_int_of_extent_small)
  moreover have "c_int_of_extent (shape1 X) = int (shape1 X)"
    using assms(9) by (rule c_int_of_extent_small)
  ultimately show ?thesis
    using julia_rows_result [OF assms(1-7), of "[0..<shape0 X]" "[0..<shape1 X]" fp cx cy iter_max radius2]
    by (simp add: julia_set_cython_def range_py_def)
qed


lemma sample_julia_wf:
  "wf_ndarray sample_X" "wf_ndarray sample_Y" "wf_ndarray sample_julia"
  "shape0 sample_Y = shape0 sample_X" "shape1 sample_Y = shape1 sample_X"
  "shape0 sample_julia = shape0 sample_X" "shape1 sample_julia = shape1 sample_X"
  "shape0 sample_X < 2 ^ 31" "shape1 sample_X < 2 ^ 31"
  by (simp_all add: wf_ndarray_def sample_X_def sample_Y_def sample_julia_def)

lemma sample_extents: "c_int_of_extent (Suc 0) = 1" "c_int_of_extent 2 = 2"
  using c_int_of_extent_small [of 1] c_int_of_extent_small [of 2] by simp_all

lemma sample_run:
  "julia_set_cython exact sample_X sample_Y 0 0 5 4 sample_julia =
     Some (Inr \<lparr>shape0 = 1, shape1 = 2, rows = [[5, 1]]\<rparr>)"
  by (simp add: julia_set_cython_def range_py_def sample_X_def sample_Y_def
      sample_julia_def get_unchecked_def set_unchecked_def julia_while.simps upt_rec
      sample_extents exact_def)

lemma escape_count_exact:
  "escape_count exact cx cy iter_max radius2 p =
     (if 0 \<le> iter_max then escape_count_spec exact cx cy iter_max radius2 p else 0)"
proof -
  have "in_radius exact radius2 q \<longleftrightarrow> \<not> escaped exact radius2 q" for q
    by (simp add: in_radius_def escaped_def exact_def not_le)
  then show ?thesis
    by (auto simp: escape_count_def escape_count_spec_def)
qed

text \<open>
  C2, as stated, stores \<open>iter_max\<close> in a cell whose iterates do not escape below the
  cap. For a negative cap the body of the \<open>while\<close> loop never runs and the kernel
  stores \<open>0\<close>, not \<open>iter_max\<close>.
\<close>

theorem julia_negative_cap_counterexample:
  "julia_set_cython exact sample_X sample_Y 0 0 (- 1) 4 sample_julia =
     Some (Inr \<lparr>shape0 = 1, shape1 = 2, rows = [[0, 0]]\<rparr>) \<and>
   escape_count_spec exact 0 0 (- 1) 4 (0, 0) = - 1"
  by (simp add: julia_set_cython_def range_py_def sample_X_def sample_Y_def
      sample_julia_def get_unchecked_def set_unchecked_def
      julia_while.simps upt_rec escape_count_spec_def sample_extents)

text \<open>
  C2, amended. For grids \<open>X\<close>, \<open>Y\<close> and an output array \<open>julia\<close> of one shape
  \<open>(ny, nx)\<close> with \<open>ny, nx < 2\<^sup>3\<^sup>1\<close>, \<open>julia_set_cython\<close> returns, and every cell
  \<open>(i, j)\<close> of the output holds the least \<open>k\<close> such that the \<open>k\<close>-th iterate of the
  recurrence from \<open>(X[i,j], Y[i,j])\<close>, computed in the arithmetic of the kernel, fails
  the loop test \<open>x*x + y*y < radius2\<close>, capped at \<open>iter_max\<close> and never below zero
  (first conjunct). In exact arithmetic this is, for \<open>iter_max \<ge> 0\<close>, the least \<open>k\<close>
  whose iterate satisfies \<open>x*x + y*y \<ge> radius2\<close>, capped at \<open>iter_max\<close>, and zero for
  \<open>iter_max < 0\<close> (second conjunct).
\<close>

theorem julia_set_cython_counts:
  assumes "wf_ndarray X" "wf_ndarray Y" "wf_ndarray julia"
    and "shape0 Y = shape0 X" "shape1 Y = shape1 X"
    and "shape0 julia = shape0 X" "shape1 julia = shape1 X"
    and "shape0 X < 2 ^ 31" "shape1 X < 2 ^ 31"
  shows "(\<exists>julia'. julia_set_cython fp X Y cx cy iter_max radius2 julia = Some (Inr julia') \<and>
            shape0 julia' = shape0 X \<and> shape1 julia' = shape1 X \<and>
            (\<forall>i < shape0 X. \<forall>j < shape1 X. rows julia' ! i ! j =
               escape_count fp cx cy iter_max radius2 (rows X ! i ! j, rows Y ! i ! j))) \<and>
         escape_count exact ex ey iter_max er p =
           (if 0 \<le> iter_max then escape_count_spec exact ex ey iter_max er p else 0)"
  using julia_set_cython_result [OF assms, of fp cx cy iter_max radius2]
    escape_count_exact [of ex ey iter_max er p]
  by blast

theorem julia_set_cython_counts_witness:
  "wf_ndarray sample_X \<and> wf_ndarray sample_Y \<and> wf_ndarray sample_julia \<and>
   julia_set_cython exact sample_X sample_Y 0 0 5 4 sample_julia =
     Some (Inr \<lparr>shape0 = 1, shape1 = 2, rows = [[5, 1]]\<rparr>) \<and>
   escape_count_spec exact 0 0 5 4 (0, 0) = 5 \<and>
   escape_count_spec exact 0 0 5 4 (3 / 2, 1) = 1"
proof -
  from julia_set_cython_counts [OF sample_julia_wf, of exact 0 0 5 4] sample_run
  have cells: "\<forall>i < shape0 sample_X. \<forall>j < shape1 sample_X. [[5, 1]] ! i ! j =
      escape_count exact 0 0 5 4 (rows sample_X ! i ! j, rows sample_Y ! i ! j)"
    and spec: "\<And>ex ey er p. escape_count exact ex ey 5 er p = escape_count_spec exact ex ey 5 er p"
    by auto
  from cells have "\<forall>j < 2. [5, 1] ! j = escape_count exact 0 0 5 4 ([0, 3 / 2] ! j, [0, 1] ! j)"
    by (simp add: sample_X_def sample_Y_def)
  then have c: "[5, 1] ! j = escape_count_spec exact 0 0 5 4 ([0, 3 / 2] ! j, [0, 1] ! j)"
    if "j < 2" for j :: nat
    using that spec by simp
  have "escape_count_spec exact 0 0 5 4 (0, 0) = 5"
    "escape_count_spec exact 0 0 5 4 (3 / 2, 1) = 1"
    using c [of 0] c [of 1] by simp_all
  then show ?thesis using sample_julia_wf(1-3) sample_run by simp
qed

text \<open>
  C8. For grids and an output array of one shape \<open>(ny, nx)\<close> with \<open>ny, nx < 2\<^sup>3\<^sup>1\<close>,
  the kernel returns, and the iteration counts it returns do not depend on what the
  output array held before the call: two runs on the same grids \<open>X\<close>, \<open>Y\<close> and the same
  parameters \<open>cx\<close>, \<open>cy\<close>, \<open>iter_max\<close>, \<open>radius2\<close> produce equal output arrays, in
  the arithmetic of the doubles as in any other.
\<close>

theorem julia_set_cython_deterministic:
  assumes "wf_ndarray X" "wf_ndarray Y" "wf_ndarray julia" "wf_ndarray other"
    and "shape0 Y = shape0 X" "shape1 Y = shape1 X"
    and "shape0 julia = shape0 X" "shape1 julia = shape1 X"
    and "shape0 other = shape0 X" "shape1 other = shape1 X"
    and "shape0 X < 2 ^ 31" "shape1 X < 2 ^ 31"
  shows "\<exists>out. julia_set_cython fp X Y cx cy iter_max radius2 julia = Some (Inr out) \<and>
           julia_set_cython fp X Y cx cy iter_max radius2 other = Some (Inr out)"
proof -
  obtain A where a: "julia_set_cython fp X Y cx cy iter_max radius2 julia = Some (Inr A)"
    and wa: "wf_ndarray A" and sa: "shape0 A = shape0 X" "shape1 A = shape1 X"
    and ea: "\<forall>i < shape0 X. \<forall>j < shape1 X. rows A ! i ! j =
              escape_count fp cx cy iter_max radius2 (rows X ! i ! j, rows Y ! i ! j)"
    using julia_set_cython_result [OF assms(1,2,3,5,6,7,8,11,12), of fp cx cy iter_max radius2]
    by blast
  obtain B where b: "julia_set_cython fp X Y cx cy iter_max radius2 other = Some (Inr B)"
    and wb: "wf_ndarray B" and sb: "shape0 B = shape0 X" "shape1 B = shape1 X"
    and eb: "\<forall>i < shape0 X. \<forall>j < shape1 X. rows B ! i ! j =
              escape_count fp cx cy iter_max radius2 (rows X ! i ! j, rows Y ! i ! j)"
    using julia_set_cython_result [OF assms(1,2,4,5,6,9,10,11,12), of fp cx cy iter_max radius2]
    by blast
  have "A = B"
    using wa wb sa sb ea eb by (intro ndarray_eqI) simp_all
  then show ?thesis using a b by simp
qed

theorem julia_set_cython_deterministic_witness:
  "wf_ndarray sample_julia \<and> wf_ndarray sample_julia' \<and> sample_julia \<noteq> sample_julia' \<and>
   (\<exists>out. julia_set_cython exact sample_X sample_Y 0 0 5 4 sample_julia = Some (Inr out) \<and>
      julia_set_cython exact sample_X sample_Y 0 0 5 4 sample_julia' = Some (Inr out))"
proof -
  have w: "wf_ndarray sample_julia'"
    "shape0 sample_julia' = shape0 sample_X" "shape1 sample_julia' = shape1 sample_X"
    by (simp_all add: wf_ndarray_def sample_X_def sample_julia'_def)
  have ne: "sample_julia \<noteq> sample_julia'"
    by (simp add: sample_julia_def sample_julia'_def)
  show ?thesis
    using julia_set_cython_deterministic [OF sample_julia_wf(1-3) w(1) sample_julia_wf(4-7)
        w(2,3) sample_julia_wf(8,9), of exact 0 0 5 4]
      sample_julia_wf(3) w(1) ne
    by simp
qed

section \<open>Termination\<close>

lemma julia_cols_returns:
  "\<exists>r. julia_cols fp js X Y cx cy iter_max radius2 i julia = Some r"
proof (induction js arbitrary: julia)
  case Nil
  show ?case by simp
next
  case (Cons j js)
  show ?case
  proof (cases "get_unchecked X i j")
    case (Inl e)
    then show ?thesis by simp
  next
    case x: (Inr x)
    show ?thesis
    proof (cases "get_unchecked Y i j")
      case (Inl e)
      then show ?thesis using x by simp
    next
      case y: (Inr y)
      obtain k where k: "julia_while fp x y cx cy iter_max radius2 0 = Some k"
        using julia_while_returns [of fp x y cx cy iter_max radius2 0] by blast
      show ?thesis
      proof (cases "set_unchecked julia i j k")
        case (Inl e)
        then show ?thesis using x y k by simp
      next
        case (Inr julia')
        then show ?thesis using x y k Cons.IH [of julia'] by simp
      qed
    qed
  qed
qed

lemma julia_rows_returns:
  "\<exists>r. julia_rows fp is js X Y cx cy iter_max radius2 julia = Some r"
proof (induction "is" arbitrary: julia)
  case Nil
  show ?case by simp
next
  case (Cons i "is")
  obtain r where r: "julia_cols fp js X Y cx cy iter_max radius2 i julia = Some r"
    using julia_cols_returns [of fp js X Y cx cy iter_max radius2 i julia] by blast
  show ?case
  proof (cases r)
    case (Inl e)
    then show ?thesis using r by simp
  next
    case (Inr julia')
    then show ?thesis using r Cons.IH [of julia'] by simp
  qed
qed

lemma julia_set_cython_returns:
  "\<exists>r. julia_set_cython fp X Y cx cy iter_max radius2 julia = Some r"
  using julia_rows_returns by (simp add: julia_set_cython_def)

lemma julia_while_bounds:
  "\<exists>k'. julia_while fp x y cx cy iter_max radius2 k = Some k' \<and> k \<le> k' \<and> k' \<le> max k iter_max"
proof (cases "\<exists>m. k + int m < iter_max \<and> \<not> in_radius fp radius2 (iterate fp cx cy (x, y) m)")
  case True
  then obtain m where m: "k + int m < iter_max" "\<not> in_radius fp radius2 (iterate fp cx cy (x, y) m)"
    by blast
  have "(LEAST m. \<not> in_radius fp radius2 (iterate fp cx cy (x, y) m)) \<le> m"
    using m(2) by (rule Least_le)
  then have "k + int (LEAST m. \<not> in_radius fp radius2 (iterate fp cx cy (x, y) m)) \<le> max k iter_max"
    using m(1) by simp
  then show ?thesis
    using julia_while_value [of fp "(x, y)" cx cy iter_max radius2 k] True by simp
next
  case False
  then show ?thesis
    using julia_while_value [of fp "(x, y)" cx cy iter_max radius2 k]
    by (simp only: if_not_P [OF False]) simp
qed

lemma value_or_error: "(\<exists>d. r = Inr d) \<or> (\<exists>e. r = Inl e)"
  by (cases r) simp_all

text \<open>
  C9. Every kernel returns or raises on every input. The \<open>while\<close> loop of
  \<open>julia_set_cython\<close> returns from every state, after at most \<open>iter_max - k\<close> passes
  (its counter ends between \<open>k\<close> and \<open>max k iter_max\<close>), and so does the kernel, for
  arrays of any shapes. The loops of \<open>pi_mc\<close> and of the distance kernels run over the
  finite index lists \<open>range\<close> gives them, which makes their models total by structural
  recursion: \<open>pi_mc\<close> ends after exactly \<open>nat n\<close> passes (two draws each), and each
  distance kernel ends with a matrix or an error. All of this holds in every arithmetic.
\<close>

theorem kernels_terminate:
  "(\<exists>k'. julia_while fp x0 y0 cx cy iter_max radius2 k = Some k' \<and> k \<le> k' \<and>
      k' \<le> max k iter_max) \<and>
   (\<exists>r. julia_set_cython fp X Y cx cy iter_max radius2 julia = Some r) \<and>
   snd (pi_mc fp1 n draws pos) = pos + 2 * nat n \<and>
   ((\<exists>d. euclidean_numba1 fp2 x y = Inr d) \<or> (\<exists>e. euclidean_numba1 fp2 x y = Inl e)) \<and>
   ((\<exists>d. euclidean_numpy u v = Inr d) \<or> (\<exists>e. euclidean_numpy u v = Inl e)) \<and>
   ((\<exists>d. cityblock_python fp2 junk x y = Inr d) \<or>
    (\<exists>e. cityblock_python fp2 junk x y = Inl e)) \<and>
   ((\<exists>d. cityblock_numba1 fp2 junk x y = Inr d) \<or>
    (\<exists>e. cityblock_numba1 fp2 junk x y = Inl e))"
proof -
  have "snd (pi_mc fp1 n draws pos) = pos + 2 * nat n"
    by (simp add: pi_mc_result)
  then show ?thesis
    using julia_while_bounds [of fp x0 y0 cx cy iter_max radius2 k]
      julia_set_cython_returns [of fp X Y cx cy iter_max radius2 julia]
      value_or_error [of "euclidean_numba1 fp2 x y"] value_or_error [of "euclidean_numpy u v"]
      value_or_error [of "cityblock_python fp2 junk x y"]
      value_or_error [of "cityblock_numba1 fp2 junk x y"]
    by blast
qed


end
